theory Spec2Isabelle
  imports Main "HOL-Library.Product_Lexorder"
begin

section \<open>The crossword constraint solver of generate.py\<close>

text \<open>
  The class \<open>CrosswordCreator\<close> of \<open>src/3-optimization/crossword/generate.py\<close> holds a
  crossword (the grid model) and \<open>self.domains\<close>, a dict from each slot to a set of
  candidate words. The module \<open>crossword.py\<close> that defines \<open>Variable\<close> and \<open>Crossword\<close>
  is not part of the sources, so the grid model is a parameter of every function here.

  Conventions of the embedding.
  \<^item> A Python set is a list that enumerates it without repetition, in the order the
    set is iterated; removing elements keeps the order of the others. Theorems hold for
    every enumeration.
  \<^item> A Python dict is an association list in insertion order; \<open>d[k] = v\<close> replaces the
    value of an existing key in place and appends a new key.
  \<^item> A raised exception is the value \<open>Inl e\<close>; a normal return is \<open>Inr r\<close>. The
    methods that mutate \<open>self.domains\<close> take the dict and return the updated one.
\<close>

subsection \<open>Data model\<close>

datatype direction = ACROSS | DOWN

text \<open>A slot: start row, start column, orientation and length. Equality is structural.\<close>

datatype variable =
  Variable (var_i: nat) (var_j: nat) (var_direction: direction) (var_length: nat)

text \<open>
  The exceptions of the code: KeyError (a dict lookup or \<open>set.remove\<close> on a missing
  key), IndexError (a string index past the end) and RecursionError (more nested
  calls than the interpreter allows; it only occurs in the search on the heap).
\<close>

datatype error = KeyError | IndexError | RecursionError

type_synonym domains = "(variable \<times> string list) list"

type_synonym assignment = "(variable \<times> string) list"

text \<open>
  The grid model as generate.py reads it: \<open>crossword.variables\<close> and \<open>crossword.words\<close>
  (sets), the dict \<open>crossword.overlaps\<close> and the method \<open>crossword.neighbors\<close>.
  A lookup \<open>overlaps[x, y]\<close> is \<open>None\<close> when the pair is not a key of the dict (Python
  raises KeyError), \<open>Some None\<close> when the dict holds Python's \<open>None\<close> (no shared cell)
  and \<open>Some (Some (a, b))\<close> when it holds the pair of offsets.
\<close>

record crossword =
  variables :: "variable list"
  words :: "string list"
  overlaps :: "variable \<times> variable \<Rightarrow> (nat \<times> nat) option option"
  neighbors :: "variable \<Rightarrow> variable list"

text \<open>\<open>d[k] = v\<close> on a dict.\<close>

fun dict_update :: "('k \<times> 'v) list \<Rightarrow> 'k \<Rightarrow> 'v \<Rightarrow> ('k \<times> 'v) list" where
  "dict_update [] k v = [(k, v)]"
| "dict_update ((k', v') # rest) k v =
     (if k' = k then (k, v) # rest else (k', v') # dict_update rest k v)"

text \<open>\<open>__init__\<close>: every slot starts with its own copy of the whole word list.\<close>

definition CrosswordCreator :: "crossword \<Rightarrow> domains" where
  "CrosswordCreator cw = map (\<lambda>var. (var, words cw)) (variables cw)"

subsection \<open>Node consistency\<close>

text \<open>\<open>set.remove(word)\<close>: raises KeyError when the word is not in the set.\<close>

definition set_remove :: "string \<Rightarrow> string list \<Rightarrow> error + string list" where
  "set_remove word d = (if word \<in> set d then Inr (removeAll word d) else Inl KeyError)"

text \<open>The inner loop of \<open>enforce_node_consistency\<close>: \<open>for word in self.crossword.words\<close>.\<close>

fun node_consistency_words :: "variable \<Rightarrow> string list \<Rightarrow> domains \<Rightarrow> error + domains" where
  "node_consistency_words variable [] ds = Inr ds"
| "node_consistency_words variable (word # rest) ds =
     (if length word \<noteq> var_length variable then
        (case map_of ds variable of
           None \<Rightarrow> Inl KeyError
         | Some d \<Rightarrow>
             (case set_remove word d of
                Inl e \<Rightarrow> Inl e
              | Inr d' \<Rightarrow> node_consistency_words variable rest (dict_update ds variable d')))
      else node_consistency_words variable rest ds)"

text \<open>The outer loop: \<open>for variable in self.crossword.variables\<close>.\<close>

fun node_consistency_variables :: "string list \<Rightarrow> variable list \<Rightarrow> domains \<Rightarrow> error + domains" where
  "node_consistency_variables ws [] ds = Inr ds"
| "node_consistency_variables ws (variable # rest) ds =
     (case node_consistency_words variable ws ds of
        Inl e \<Rightarrow> Inl e
      | Inr ds' \<Rightarrow> node_consistency_variables ws rest ds')"

definition enforce_node_consistency :: "crossword \<Rightarrow> domains \<Rightarrow> error + domains" where
  "enforce_node_consistency cw ds = node_consistency_variables (words cw) (variables cw) ds"

subsection \<open>Arc consistency\<close>

text \<open>
  The inner loop of \<open>revise\<close>, \<open>for y_domain in self.domains[y]\<close>, computing
  \<open>overlap_possible\<close>. The test \<open>x_domain != y_domain and x_domain[a] == y_domain[b]\<close>
  indexes only when the words differ, and an index past the end of a word raises
  IndexError. The loop stops at the first supporting word (\<open>break\<close>).
\<close>

fun overlap_possible :: "nat \<Rightarrow> nat \<Rightarrow> string \<Rightarrow> string list \<Rightarrow> error + bool" where
  "overlap_possible a b x_domain [] = Inr False"
| "overlap_possible a b x_domain (y_domain # rest) =
     (if x_domain \<noteq> y_domain then
        (if a < length x_domain \<and> b < length y_domain then
           (if x_domain ! a = y_domain ! b then Inr True
            else overlap_possible a b x_domain rest)
         else Inl IndexError)
      else overlap_possible a b x_domain rest)"

text \<open>
  The outer loop of \<open>revise\<close>, \<open>for x_domain in self.domains[x]\<close>, collecting
  \<open>domains_to_remove\<close>. \<open>self.domains[y]\<close> is looked up once per word of x.
\<close>

fun domains_to_remove :: "domains \<Rightarrow> variable \<Rightarrow> nat \<Rightarrow> nat \<Rightarrow> string list \<Rightarrow> error + string list" where
  "domains_to_remove ds y a b [] = Inr []"
| "domains_to_remove ds y a b (x_domain # rest) =
     (case map_of ds y of
        None \<Rightarrow> Inl KeyError
      | Some dy \<Rightarrow>
          (case overlap_possible a b x_domain dy of
             Inl e \<Rightarrow> Inl e
           | Inr possible \<Rightarrow>
               (case domains_to_remove ds y a b rest of
                  Inl e \<Rightarrow> Inl e
                | Inr to_remove \<Rightarrow> Inr (if possible then to_remove else x_domain # to_remove))))"

text \<open>\<open>revise\<close> returns the flag \<open>revised\<close> together with the updated \<open>self.domains\<close>.\<close>

definition revise :: "crossword \<Rightarrow> domains \<Rightarrow> variable \<Rightarrow> variable \<Rightarrow> error + (bool \<times> domains)" where
  "revise cw ds x y =
     (case overlaps cw (x, y) of
        None \<Rightarrow> Inl KeyError
      | Some None \<Rightarrow> Inr (False, ds)
      | Some (Some (a, b)) \<Rightarrow>
          (case map_of ds x of
             None \<Rightarrow> Inl KeyError
           | Some dx \<Rightarrow>
               (case domains_to_remove ds y a b dx of
                  Inl e \<Rightarrow> Inl e
                | Inr to_remove \<Rightarrow>
                    if to_remove \<noteq> [] then
                      Inr (True, dict_update ds x (filter (\<lambda>w. w \<notin> set to_remove) dx))
                    else Inr (False, ds))))"

text \<open>The queue \<open>ac3\<close> builds when it is given no arcs.\<close>

definition initial_queue :: "crossword \<Rightarrow> (variable \<times> variable) list" where
  "initial_queue cw =
     concat (map (\<lambda>variable1. map (\<lambda>variable2. (variable1, variable2)) (neighbors cw variable1))
       (variables cw))"

text \<open>Total number of candidate words in the domain store (the termination measure).\<close>

definition store_size :: "domains \<Rightarrow> nat" where
  "store_size ds = sum_list (map (\<lambda>p. length (snd p)) ds)"

text \<open>
  The \<open>while queue\<close> loop of \<open>ac3\<close>: \<open>queue.pop(0)\<close> takes the first arc, new arcs
  \<open>(z, x)\<close> for \<open>z in neighbors(x) - {y}\<close> are appended at the end.
\<close>

function ac3_loop :: "crossword \<Rightarrow> (variable \<times> variable) list \<Rightarrow> domains \<Rightarrow> error + (bool \<times> domains)" where
  "ac3_loop cw [] ds = Inr (True, ds)"
| "ac3_loop cw ((x, y) # queue) ds =
     (case revise cw ds x y of
        Inl e \<Rightarrow> Inl e
      | Inr (revised, ds') \<Rightarrow>
          if revised then
            (case map_of ds' x of
               None \<Rightarrow> Inl KeyError
             | Some dx \<Rightarrow>
                 if length dx = 0 then Inr (False, ds')
                 else ac3_loop cw (queue @ map (\<lambda>z. (z, x)) (filter (\<lambda>z. z \<noteq> y) (neighbors cw x))) ds')
          else ac3_loop cw queue ds')"
  by pat_completeness auto

lemma store_size_dict_update:
  "map_of ds k = Some d \<Longrightarrow> store_size (dict_update ds k d') + length d = store_size ds + length d'"
  by (induction ds k d' rule: dict_update.induct) (auto simp: store_size_def)

lemma domains_to_remove_subset:
  "domains_to_remove ds y a b dx = Inr to_remove \<Longrightarrow> set to_remove \<subseteq> set dx"
  by (induction dx arbitrary: to_remove) (auto split: option.splits sum.splits if_splits)

lemma revise_unrevised: "revise cw ds x y = Inr (False, ds') \<Longrightarrow> ds' = ds"
  by (auto simp: revise_def split: option.splits sum.splits if_splits)

lemma revise_revised_size:
  assumes "revise cw ds x y = Inr (True, ds')"
  shows "store_size ds' < store_size ds"
proof -
  from assms obtain a b dx to_remove where
    dx: "map_of ds x = Some dx" and
    rem: "domains_to_remove ds y a b dx = Inr to_remove" and
    ne: "to_remove \<noteq> []" and
    ds': "ds' = dict_update ds x (filter (\<lambda>w. w \<notin> set to_remove) dx)"
    by (auto simp: revise_def split: option.splits sum.splits if_splits)
  from ne obtain w where w: "w \<in> set to_remove" by (cases to_remove) auto
  with domains_to_remove_subset [OF rem] have "w \<in> set dx" by auto
  with w have "length (filter (\<lambda>w. w \<notin> set to_remove) dx) < length dx"
    by (intro length_filter_less) auto
  with store_size_dict_update [OF dx, of "filter (\<lambda>w. w \<notin> set to_remove) dx"] ds'
  show ?thesis by simp
qed

termination ac3_loop
proof (relation "measures [\<lambda>(cw, queue, ds). store_size ds, \<lambda>(cw, queue, ds). length queue]", goal_cases)
  case 1
  show ?case by simp
next
  case (2 cw x y queue ds r revised ds' dx)
  then have "revise cw ds x y = Inr (True, ds')" by auto
  from revise_revised_size [OF this] show ?case by simp
next
  case (3 cw x y queue ds r revised ds')
  then have "revise cw ds x y = Inr (False, ds')" by auto
  from revise_unrevised [OF this] show ?case by simp
qed

text \<open>
  \<open>ac3(arcs=None)\<close>: the guard is \<open>if not arcs\<close>, so both \<open>None\<close> and an empty list
  select the full initial queue.
\<close>

definition ac3 :: "crossword \<Rightarrow> domains \<Rightarrow> (variable \<times> variable) list option \<Rightarrow> error + (bool \<times> domains)" where
  "ac3 cw ds arcs =
     (case arcs of
        None \<Rightarrow> ac3_loop cw (initial_queue cw) ds
      | Some [] \<Rightarrow> ac3_loop cw (initial_queue cw) ds
      | Some (arc # rest) \<Rightarrow> ac3_loop cw (arc # rest) ds)"

subsection \<open>Search\<close>

text \<open>
  \<open>assignment_complete\<close>: every slot is a key of the assignment and its value is a word
  of the word list.
\<close>

fun assignment_complete_loop :: "string list \<Rightarrow> assignment \<Rightarrow> variable list \<Rightarrow> bool" where
  "assignment_complete_loop ws asg [] = True"
| "assignment_complete_loop ws asg (variable # rest) =
     (case map_of asg variable of
        None \<Rightarrow> False
      | Some w \<Rightarrow> if w \<notin> set ws then False else assignment_complete_loop ws asg rest)"

definition assignment_complete :: "crossword \<Rightarrow> assignment \<Rightarrow> bool" where
  "assignment_complete cw asg = assignment_complete_loop (words cw) asg (variables cw)"

text \<open>
  The inner loop of \<open>consistent\<close>, \<open>for y in assignment\<close>, for a fixed \<open>x\<close> with its
  word. \<open>Inr False\<close> is the early \<open>return False\<close>; \<open>Inr True\<close> means the loop ran to
  its end.
\<close>

fun consistent_inner :: "crossword \<Rightarrow> variable \<Rightarrow> string \<Rightarrow> assignment \<Rightarrow> error + bool" where
  "consistent_inner cw x word1 [] = Inr True"
| "consistent_inner cw x word1 ((y, word2) # rest) =
     (if x \<noteq> y then
        (if word1 = word2 then Inr False
         else
           (case overlaps cw (x, y) of
              None \<Rightarrow> Inl KeyError
            | Some None \<Rightarrow> consistent_inner cw x word1 rest
            | Some (Some (a, b)) \<Rightarrow>
                if a < length word1 \<and> b < length word2 then
                  (if word1 ! a \<noteq> word2 ! b then Inr False
                   else consistent_inner cw x word1 rest)
                else Inl IndexError))
      else consistent_inner cw x word1 rest)"

text \<open>The outer loop, \<open>for x in assignment\<close>, over the entries still to visit.\<close>

fun consistent_outer :: "crossword \<Rightarrow> assignment \<Rightarrow> assignment \<Rightarrow> error + bool" where
  "consistent_outer cw asg [] = Inr True"
| "consistent_outer cw asg ((x, word1) # rest) =
     (if var_length x \<noteq> length word1 then Inr False
      else
        (case consistent_inner cw x word1 asg of
           Inl e \<Rightarrow> Inl e
         | Inr ok \<Rightarrow> if ok then consistent_outer cw asg rest else Inr False))"

definition consistent :: "crossword \<Rightarrow> assignment \<Rightarrow> error + bool" where
  "consistent cw asg = consistent_outer cw asg asg"

text \<open>
  \<open>order_domain_values\<close>. First the neighbours of \<open>var\<close> that are keys of the assignment
  are removed from the (fresh) set that \<open>neighbors\<close> returned.
\<close>

fun unassigned_neighbors :: "assignment \<Rightarrow> variable list \<Rightarrow> variable list" where
  "unassigned_neighbors [] ns = ns"
| "unassigned_neighbors ((i, w) # rest) ns =
     unassigned_neighbors rest (if i \<in> set ns then removeAll i ns else ns)"

text \<open>\<open>for val2 in self.domains[var2]\<close>: how many words of one neighbour \<open>val\<close> rules out.\<close>

fun ruled_out_words :: "crossword \<Rightarrow> variable \<Rightarrow> variable \<Rightarrow> string \<Rightarrow> string list \<Rightarrow> error + nat" where
  "ruled_out_words cw var var2 val [] = Inr 0"
| "ruled_out_words cw var var2 val (val2 # rest) =
     (case overlaps cw (var, var2) of
        None \<Rightarrow> Inl KeyError
      | Some None \<Rightarrow> ruled_out_words cw var var2 val rest
      | Some (Some (a, b)) \<Rightarrow>
          if a < length val \<and> b < length val2 then
            (case ruled_out_words cw var var2 val rest of
               Inl e \<Rightarrow> Inl e
             | Inr n \<Rightarrow> Inr (if val ! a \<noteq> val2 ! b then Suc n else n))
          else Inl IndexError)"

text \<open>\<open>for var2 in neighbors\<close>: the sum over the unassigned neighbours.\<close>

fun total_ruled_out :: "crossword \<Rightarrow> domains \<Rightarrow> variable \<Rightarrow> string \<Rightarrow> variable list \<Rightarrow> error + nat" where
  "total_ruled_out cw ds var val [] = Inr 0"
| "total_ruled_out cw ds var val (var2 # rest) =
     (case map_of ds var2 of
        None \<Rightarrow> Inl KeyError
      | Some d2 \<Rightarrow>
          (case ruled_out_words cw var var2 val d2 of
             Inl e \<Rightarrow> Inl e
           | Inr n \<Rightarrow>
               (case total_ruled_out cw ds var val rest of
                  Inl e \<Rightarrow> Inl e
                | Inr m \<Rightarrow> Inr (n + m))))"

text \<open>\<open>for val in self.domains[var]\<close>: the list \<open>result\<close> of pairs \<open>[val, total_ruled_out]\<close>.\<close>

fun ruled_out_table :: "crossword \<Rightarrow> domains \<Rightarrow> variable \<Rightarrow> variable list \<Rightarrow> string list \<Rightarrow> error + (string \<times> nat) list" where
  "ruled_out_table cw ds var ns [] = Inr []"
| "ruled_out_table cw ds var ns (val # rest) =
     (case total_ruled_out cw ds var val ns of
        Inl e \<Rightarrow> Inl e
      | Inr n \<Rightarrow>
          (case ruled_out_table cw ds var ns rest of
             Inl e \<Rightarrow> Inl e
           | Inr result \<Rightarrow> Inr ((val, n) # result)))"

text \<open>Python's \<open>list.sort\<close> is stable, as \<open>sort_key\<close> is.\<close>

definition order_domain_values :: "crossword \<Rightarrow> domains \<Rightarrow> variable \<Rightarrow> assignment \<Rightarrow> error + string list" where
  "order_domain_values cw ds var asg =
     (let ns = unassigned_neighbors asg (neighbors cw var) in
      case map_of ds var of
        None \<Rightarrow> Inl KeyError
      | Some d \<Rightarrow>
          (case ruled_out_table cw ds var ns d of
             Inl e \<Rightarrow> Inl e
           | Inr result \<Rightarrow> Inr (map fst (sort_key snd result))))"

text \<open>
  \<open>select_unassigned_variable\<close>: the triples \<open>[var, len(domain), len(neighbors)]\<close> of the
  slots that are not keys of the assignment, sorted by \<open>(x[1], -x[2])\<close>; the first one
  wins, \<open>None\<close> when there is none.
\<close>

fun list_of_variables :: "crossword \<Rightarrow> domains \<Rightarrow> assignment \<Rightarrow> variable list \<Rightarrow> error + (variable \<times> nat \<times> nat) list" where
  "list_of_variables cw ds asg [] = Inr []"
| "list_of_variables cw ds asg (var # rest) =
     (if map_of asg var = None then
        (case map_of ds var of
           None \<Rightarrow> Inl KeyError
         | Some d \<Rightarrow>
             (case list_of_variables cw ds asg rest of
                Inl e \<Rightarrow> Inl e
              | Inr l \<Rightarrow> Inr ((var, length d, length (neighbors cw var)) # l)))
      else list_of_variables cw ds asg rest)"

definition select_unassigned_variable :: "crossword \<Rightarrow> domains \<Rightarrow> assignment \<Rightarrow> error + variable option" where
  "select_unassigned_variable cw ds asg =
     (case list_of_variables cw ds asg (variables cw) of
        Inl e \<Rightarrow> Inl e
      | Inr l \<Rightarrow>
          if l \<noteq> [] then Inr (Some (fst (hd (sort_key (\<lambda>(var, n, degree). (n, - int degree)) l))))
          else Inr None)"

text \<open>Python's truth value of \<open>result\<close>: \<open>None\<close> and the empty dict are false.\<close>

definition truthy :: "assignment option \<Rightarrow> bool" where
  "truthy result = (case result of None \<Rightarrow> False | Some asg \<Rightarrow> asg \<noteq> [])"

text \<open>
  \<open>backtrack\<close> and its loop \<open>for val in self.order_domain_values(var, assignment)\<close>, with
  the assignment passed as a value and no bound on the nesting of calls (the same
  function on dict objects follows in the section on the heap, and the two agree).
  \<open>new_assigment\<close> is a copy of the assignment with \<open>var\<close> set to \<open>val\<close>. When every slot
  is a key of the assignment and the assignment is still not complete (a value outside
  the word list), \<open>select_unassigned_variable\<close> returns \<open>None\<close> and
  \<open>order_domain_values(None, ...)\<close> calls \<open>self.crossword.neighbors(None)\<close>. That method
  belongs to the module that is not among the sources; it is taken to fail with
  KeyError on an argument that is not a slot, the overlap dict having no such key. The
  branch is not reachable from \<open>solve\<close>, whose assignments only hold words of the domains.
\<close>

function backtrack :: "crossword \<Rightarrow> domains \<Rightarrow> assignment \<Rightarrow> error + assignment option"
  and backtrack_values :: "crossword \<Rightarrow> domains \<Rightarrow> assignment \<Rightarrow> variable \<Rightarrow> string list \<Rightarrow> error + assignment option"
where
  "backtrack cw ds asg =
     (if assignment_complete cw asg then Inr (Some asg)
      else
        (case select_unassigned_variable cw ds asg of
           Inl e \<Rightarrow> Inl e
         | Inr None \<Rightarrow> Inl KeyError
         | Inr (Some var) \<Rightarrow>
             (case order_domain_values cw ds var asg of
                Inl e \<Rightarrow> Inl e
              | Inr vals \<Rightarrow> backtrack_values cw ds asg var vals)))"
| "backtrack_values cw ds asg var [] = Inr None"
| "backtrack_values cw ds asg var (val # vals) =
     (let new_assigment = dict_update asg var val in
      case consistent cw new_assigment of
        Inl e \<Rightarrow> Inl e
      | Inr ok \<Rightarrow>
          if ok then
            (case backtrack cw ds new_assigment of
               Inl e \<Rightarrow> Inl e
             | Inr result \<Rightarrow>
                 if truthy result then Inr result
                 else backtrack_values cw ds asg var vals)
          else backtrack_values cw ds asg var vals)"
  by pat_completeness auto

text \<open>The slots that are not yet keys of the assignment (the termination measure).\<close>

definition unassigned :: "crossword \<Rightarrow> assignment \<Rightarrow> variable set" where
  "unassigned cw asg = set (variables cw) - fst ` set asg"

lemma list_of_variables_map_fst:
  "list_of_variables cw ds asg vs = Inr l \<Longrightarrow>
     map fst l = filter (\<lambda>v. map_of asg v = None) vs"
  by (induction vs arbitrary: l) (auto split: if_splits option.splits sum.splits)

lemma list_of_variables_set:
  assumes "list_of_variables cw ds asg vs = Inr l"
  shows "fst ` set l = {v \<in> set vs. map_of asg v = None}"
proof -
  have "fst ` set l = set (map fst l)" by simp
  also have "\<dots> = {v \<in> set vs. map_of asg v = None}"
    unfolding list_of_variables_map_fst [OF assms] by auto
  finally show ?thesis .
qed

lemma select_unassigned_variable_Some:
  assumes "select_unassigned_variable cw ds asg = Inr (Some var)"
  shows "var \<in> unassigned cw asg"
proof -
  from assms obtain l where l: "list_of_variables cw ds asg (variables cw) = Inr l" "l \<noteq> []"
    and var: "var = fst (hd (sort_key (\<lambda>(var, n, degree). (n, - int degree)) l))"
    by (auto simp: select_unassigned_variable_def split: sum.splits if_splits)
  from l have "sort_key (\<lambda>(var, n, degree). (n, - int degree)) l \<noteq> []"
    by (metis length_sort length_0_conv)
  then have "hd (sort_key (\<lambda>(var, n, degree). (n, - int degree)) l) \<in> set l"
    by (metis hd_in_set set_sort)
  with var have "var \<in> fst ` set l" by auto
  with list_of_variables_set [OF l(1)] show ?thesis
    by (auto simp: unassigned_def map_of_eq_None_iff)
qed

lemma dict_update_keys: "fst ` set (dict_update asg k v) = insert k (fst ` set asg)"
  by (induction asg k v rule: dict_update.induct) auto

lemma unassigned_dict_update: "unassigned cw (dict_update asg var val) = unassigned cw asg - {var}"
  by (auto simp: unassigned_def dict_update_keys)

lemma finite_unassigned: "finite (unassigned cw asg)"
  by (simp add: unassigned_def)

termination backtrack
proof (relation "measures
    [\<lambda>c. case c of Inl (cw, ds, asg) \<Rightarrow> 2 * card (unassigned cw asg)
               | Inr (cw, ds, asg, var, vals) \<Rightarrow> 2 * card (unassigned cw asg - {var}) + 1,
     \<lambda>c. case c of Inl (cw, ds, asg) \<Rightarrow> 0
               | Inr (cw, ds, asg, var, vals) \<Rightarrow> length vals]", goal_cases)
  case 1
  show ?case by simp
next
  case (2 cw ds asg r var vals)
  then have "var \<in> unassigned cw asg"
    by (auto dest: select_unassigned_variable_Some)
  then have "card (unassigned cw asg - {var}) < card (unassigned cw asg)"
    by (intro card_Diff1_less finite_unassigned)
  then show ?case by simp
next
  case 3
  then show ?case by (simp add: unassigned_dict_update)
next
  case 4
  then show ?case by simp
next
  case 5
  then show ?case by simp
qed

text \<open>
  \<open>solve\<close>. The value of \<open>self.ac3()\<close> is discarded. The model returns the result of
  \<open>backtrack(dict())\<close> together with \<open>self.domains\<close> as the call leaves it.
\<close>

definition solve :: "crossword \<Rightarrow> domains \<Rightarrow> error + (assignment option \<times> domains)" where
  "solve cw ds =
     (case enforce_node_consistency cw ds of
        Inl e \<Rightarrow> Inl e
      | Inr ds1 \<Rightarrow>
          (case ac3 cw ds1 None of
             Inl e \<Rightarrow> Inl e
           | Inr (consistent_arcs, ds2) \<Rightarrow>
               (case backtrack cw ds2 [] of
                  Inl e \<Rightarrow> Inl e
                | Inr result \<Rightarrow> Inr (result, ds2))))"

subsection \<open>The search on the heap\<close>

text \<open>
  The assignments that \<open>backtrack\<close> handles are dict objects: \<open>assignment.copy()\<close>
  allocates a new object and \<open>new_assigment[var] = val\<close> writes into it. The memory of
  a search holds \<open>self.domains\<close> and the dict objects by address; \<open>next_address\<close> is the
  first address not yet allocated.
\<close>

record memory =
  self_domains :: domains
  dict_at :: "nat \<Rightarrow> assignment"
  next_address :: nat

text \<open>\<open>assignment.copy()\<close>: the address of the new object and the memory holding it.\<close>

definition dict_copy :: "memory \<Rightarrow> nat \<Rightarrow> nat \<times> memory" where
  "dict_copy s r =
     (next_address s,
      s\<lparr>dict_at := (dict_at s)(next_address s := dict_at s r),
        next_address := Suc (next_address s)\<rparr>)"

text \<open>\<open>d[k] = v\<close> on the object at address \<open>r\<close>.\<close>

definition dict_setitem :: "memory \<Rightarrow> nat \<Rightarrow> variable \<Rightarrow> string \<Rightarrow> memory" where
  "dict_setitem s r k v = s\<lparr>dict_at := (dict_at s)(r := dict_update (dict_at s r) k v)\<rparr>"

text \<open>The truth value of a returned reference: \<open>None\<close> and an empty dict are false.\<close>

definition truthy_at :: "memory \<Rightarrow> nat option \<Rightarrow> bool" where
  "truthy_at s result = (case result of None \<Rightarrow> False | Some r \<Rightarrow> dict_at s r \<noteq> [])"

text \<open>
  \<open>backtrack\<close> on the memory. The assignment is passed and returned by address, and
  the memory is returned with every outcome, an exception included. The first
  argument is the number of nested calls the interpreter still allows; when it is
  used up Python raises RecursionError.
\<close>

fun backtrack_mem :: "nat \<Rightarrow> crossword \<Rightarrow> memory \<Rightarrow> nat \<Rightarrow> (error + nat option) \<times> memory"
  and backtrack_values_mem :: "nat \<Rightarrow> crossword \<Rightarrow> memory \<Rightarrow> nat \<Rightarrow> variable \<Rightarrow> string list \<Rightarrow> (error + nat option) \<times> memory"
where
  "backtrack_mem 0 cw s assignment = (Inl RecursionError, s)"
| "backtrack_mem (Suc depth) cw s assignment =
     (if assignment_complete cw (dict_at s assignment) then (Inr (Some assignment), s)
      else
        (case select_unassigned_variable cw (self_domains s) (dict_at s assignment) of
           Inl e \<Rightarrow> (Inl e, s)
         | Inr None \<Rightarrow> (Inl KeyError, s)
         | Inr (Some var) \<Rightarrow>
             (case order_domain_values cw (self_domains s) var (dict_at s assignment) of
                Inl e \<Rightarrow> (Inl e, s)
              | Inr vals \<Rightarrow> backtrack_values_mem depth cw s assignment var vals)))"
| "backtrack_values_mem depth cw s assignment var [] = (Inr None, s)"
| "backtrack_values_mem depth cw s assignment var (val # vals) =
     (case dict_copy s assignment of
        (new_assigment, s1) \<Rightarrow>
          (let s2 = dict_setitem s1 new_assigment var val in
           case consistent cw (dict_at s2 new_assigment) of
             Inl e \<Rightarrow> (Inl e, s2)
           | Inr ok \<Rightarrow>
               if ok then
                 (case backtrack_mem depth cw s2 new_assigment of
                    (Inl e, s3) \<Rightarrow> (Inl e, s3)
                  | (Inr result, s3) \<Rightarrow>
                      if truthy_at s3 result then (Inr result, s3)
                      else backtrack_values_mem depth cw s3 assignment var vals)
               else backtrack_values_mem depth cw s2 assignment var vals))"

subsection \<open>Well-formed grid models, valid assignments, consistency of the store\<close>

text \<open>
  Modelled from the spec: the module \<open>crossword.py\<close> that builds the grid model is
  missing, and this predicate states what the spec (sections 3 and 4.1) says of its
  tables. The slots and the words are sets; every pair of distinct slots has an entry
  in the overlap relation, either "no overlap" or the offsets of the one shared cell,
  each offset inside its slot, and the entry of the reverse pair holds the same cell
  with the offsets exchanged; \<open>neighbors(x)\<close> is the set of the other slots that share a
  cell with \<open>x\<close>.
\<close>

definition wf_crossword :: "crossword \<Rightarrow> bool" where
  "wf_crossword cw \<longleftrightarrow>
     distinct (variables cw) \<and> distinct (words cw) \<and>
     (\<forall>x\<in>set (variables cw). \<forall>y\<in>set (variables cw). x \<noteq> y \<longrightarrow>
        (case overlaps cw (x, y) of
           None \<Rightarrow> False
         | Some None \<Rightarrow> overlaps cw (y, x) = Some None
         | Some (Some (a, b)) \<Rightarrow>
             a < var_length x \<and> b < var_length y \<and> overlaps cw (y, x) = Some (Some (b, a)))) \<and>
     (\<forall>x\<in>set (variables cw).
        distinct (neighbors cw x) \<and>
        set (neighbors cw x) =
          set (filter (\<lambda>y. y \<noteq> x \<and> (\<exists>ab. overlaps cw (y, x) = Some (Some ab))) (variables cw)))"

text \<open>Every recorded pair of offsets lies inside its two slots.\<close>

definition offsets_in_range :: "crossword \<Rightarrow> bool" where
  "offsets_in_range cw \<longleftrightarrow>
     (\<forall>x y a b. overlaps cw (x, y) = Some (Some (a, b)) \<longrightarrow> a < var_length x \<and> b < var_length y)"

text \<open>The words of a slot in the store; a slot that is not a key has none.\<close>

definition domain_of :: "domains \<Rightarrow> variable \<Rightarrow> string list" where
  "domain_of ds x = (case map_of ds x of None \<Rightarrow> [] | Some d \<Rightarrow> d)"

text \<open>Node consistency: every word in a slot's domain has the slot's length.\<close>

definition node_consistent :: "domains \<Rightarrow> bool" where
  "node_consistent ds = list_all (\<lambda>(v, d). list_all (\<lambda>w. length w = var_length v) d) ds"

text \<open>
  The word \<open>w\<close> of slot \<open>y\<close> supports the word \<open>v\<close> of slot \<open>x\<close> at the offsets \<open>(a, b)\<close>:
  the words differ and carry the same letter at the shared cell.
\<close>

definition supports :: "nat \<Rightarrow> nat \<Rightarrow> string \<Rightarrow> string \<Rightarrow> bool" where
  "supports a b v w \<longleftrightarrow> w \<noteq> v \<and> a < length v \<and> b < length w \<and> v ! a = w ! b"

text \<open>
  A valid complete assignment: every slot has a word of the word list of the slot's
  length, distinct slots have distinct words, and the words of two slots with an overlap
  agree at the shared cell.
\<close>

definition valid_assignment :: "crossword \<Rightarrow> (variable \<rightharpoonup> string) \<Rightarrow> bool" where
  "valid_assignment cw m \<longleftrightarrow>
     (\<forall>x\<in>set (variables cw). \<exists>w. m x = Some w \<and> w \<in> set (words cw) \<and> length w = var_length x) \<and>
     (\<forall>x\<in>set (variables cw). \<forall>y\<in>set (variables cw). \<forall>w1 w2.
        x \<noteq> y \<and> m x = Some w1 \<and> m y = Some w2 \<longrightarrow>
          w1 \<noteq> w2 \<and>
          (\<forall>a b. overlaps cw (x, y) = Some (Some (a, b)) \<longrightarrow>
             a < length w1 \<and> b < length w2 \<and> w1 ! a = w2 ! b))"

text \<open>The store is keyed by the slots, as \<open>__init__\<close> builds it.\<close>

definition store_of :: "crossword \<Rightarrow> domains \<Rightarrow> bool" where
  "store_of cw ds \<longleftrightarrow> map fst ds = variables cw"

text \<open>
  The word \<open>v\<close> of slot \<open>x\<close> has a support in the domain of \<open>y\<close> (always, when the two
  slots share no cell).
\<close>

definition supported :: "crossword \<Rightarrow> domains \<Rightarrow> variable \<Rightarrow> variable \<Rightarrow> string \<Rightarrow> bool" where
  "supported cw ds x y v =
     (case overlaps cw (x, y) of
        Some (Some (a, b)) \<Rightarrow> (\<exists>w\<in>set (domain_of ds y). supports a b v w)
      | _ \<Rightarrow> True)"

text \<open>
  A family of word sets, one per slot, is closed under the arcs: every word of every
  slot has a support in the set of every other slot it overlaps. A store is arc
  consistent when its domains form such a family.
\<close>

definition arc_closed :: "crossword \<Rightarrow> (variable \<Rightarrow> string set) \<Rightarrow> bool" where
  "arc_closed cw E \<longleftrightarrow>
     (\<forall>x\<in>set (variables cw). \<forall>y\<in>set (variables cw). x \<noteq> y \<longrightarrow>
        (\<forall>a b. overlaps cw (x, y) = Some (Some (a, b)) \<longrightarrow>
           (\<forall>v\<in>E x. \<exists>w\<in>E y. supports a b v w)))"

definition arc_consistent :: "crossword \<Rightarrow> domains \<Rightarrow> bool" where
  "arc_consistent cw ds = arc_closed cw (\<lambda>x. set (domain_of ds x))"

text \<open>The arcs between distinct slots.\<close>

definition slot_arcs :: "crossword \<Rightarrow> (variable \<times> variable) set" where
  "slot_arcs cw = {(x, y). x \<in> set (variables cw) \<and> y \<in> set (variables cw) \<and> x \<noteq> y}"

text \<open>Every arc between distinct slots that is not in the queue is consistent.\<close>

definition settled :: "crossword \<Rightarrow> (variable \<times> variable) list \<Rightarrow> domains \<Rightarrow> bool" where
  "settled cw queue ds \<longleftrightarrow>
     (\<forall>(u, v)\<in>slot_arcs cw. (u, v) \<in> set queue \<or> (\<forall>w\<in>set (domain_of ds u). supported cw ds u v w))"

text \<open>
  The checks of \<open>consistent\<close> as a predicate on the entries of an assignment: every word
  has its slot's length, and two entries of distinct slots hold distinct words that
  agree at a recorded overlap.
\<close>

definition consistent_entries :: "crossword \<Rightarrow> assignment \<Rightarrow> bool" where
  "consistent_entries cw asg \<longleftrightarrow>
     (\<forall>(x, word1)\<in>set asg. var_length x = length word1 \<and>
        (\<forall>(y, word2)\<in>set asg. x \<noteq> y \<longrightarrow>
           word1 \<noteq> word2 \<and>
           (\<forall>a b. overlaps cw (x, y) = Some (Some (a, b)) \<longrightarrow>
              a < length word1 \<and> b < length word2 \<and> word1 ! a = word2 ! b)))"

text \<open>
  A total assignment \<open>m\<close> agrees with a partial one on its entries, and lies within
  the store when the word of every slot is in the slot's domain.
\<close>

definition agrees :: "(variable \<rightharpoonup> string) \<Rightarrow> assignment \<Rightarrow> bool" where
  "agrees m asg \<longleftrightarrow> (\<forall>(x, w)\<in>set asg. m x = Some w)"

definition within :: "crossword \<Rightarrow> (variable \<rightharpoonup> string) \<Rightarrow> domains \<Rightarrow> bool" where
  "within cw m ds \<longleftrightarrow> (\<forall>x\<in>set (variables cw). \<forall>w. m x = Some w \<longrightarrow> w \<in> set (domain_of ds x))"

text \<open>
  The frame of a call: \<open>self.domains\<close> is the same, every dict object that existed
  before the call is the same, and no address was given back.
\<close>

definition frame :: "memory \<Rightarrow> memory \<Rightarrow> bool" where
  "frame s s' \<longleftrightarrow>
     self_domains s' = self_domains s \<and> next_address s \<le> next_address s' \<and>
     (\<forall>r<next_address s. dict_at s' r = dict_at s r)"

text \<open>The value of an outcome of the search on the heap: a returned address stands for its object.\<close>

definition outcome_value :: "memory \<Rightarrow> error + nat option \<Rightarrow> error + assignment option" where
  "outcome_value s outcome =
     (case outcome of Inl e \<Rightarrow> Inl e | Inr None \<Rightarrow> Inr None | Inr (Some r) \<Rightarrow> Inr (Some (dict_at s r)))"

subsection \<open>Example grids\<close>

text \<open>
  Two crossing slots of length 3 (offset 1 of the ACROSS slot, offset 0 of the DOWN
  slot) with the words CAT, ART, DOG.
\<close>

definition slot_across :: variable where "slot_across = Variable 0 0 ACROSS 3"

definition slot_down :: variable where "slot_down = Variable 0 1 DOWN 3"

definition crossing_overlaps :: "variable \<times> variable \<Rightarrow> (nat \<times> nat) option option" where
  "crossing_overlaps = (\<lambda>(x, y).
     if x = slot_across \<and> y = slot_down then Some (Some (1, 0))
     else if x = slot_down \<and> y = slot_across then Some (Some (0, 1))
     else None)"

definition crossing_neighbors :: "variable \<Rightarrow> variable list" where
  "crossing_neighbors = (\<lambda>v.
     if v = slot_across then [slot_down] else if v = slot_down then [slot_across] else [])"

definition crossing :: crossword where
  "crossing = \<lparr> variables = [slot_across, slot_down], words = [''CAT'', ''ART'', ''DOG''],
     overlaps = crossing_overlaps, neighbors = crossing_neighbors \<rparr>"

text \<open>One slot of length 3 with the words CAT and AT.\<close>

definition single :: crossword where
  "single = \<lparr> variables = [slot_across], words = [''CAT'', ''AT''],
     overlaps = (\<lambda>p. None), neighbors = (\<lambda>v. []) \<rparr>"

text \<open>One slot of length 3 whose length matches no word of the list.\<close>

definition unmatched :: crossword where
  "unmatched = \<lparr> variables = [slot_across], words = [''AT''],
     overlaps = (\<lambda>p. None), neighbors = (\<lambda>v. []) \<rparr>"

text \<open>
  An ACROSS slot of length 2 and a DOWN slot of length 3 that share their first cell,
  with the words AB and CDE: the letters at the shared cell differ.
\<close>

definition slot_two :: variable where "slot_two = Variable 0 0 ACROSS 2"

definition slot_three :: variable where "slot_three = Variable 0 0 DOWN 3"

definition mismatch_overlaps :: "variable \<times> variable \<Rightarrow> (nat \<times> nat) option option" where
  "mismatch_overlaps = (\<lambda>(x, y).
     if x = slot_two \<and> y = slot_three then Some (Some (0, 0))
     else if x = slot_three \<and> y = slot_two then Some (Some (0, 0))
     else None)"

definition mismatch_neighbors :: "variable \<Rightarrow> variable list" where
  "mismatch_neighbors = (\<lambda>v.
     if v = slot_two then [slot_three] else if v = slot_three then [slot_two] else [])"

definition mismatch :: crossword where
  "mismatch = \<lparr> variables = [slot_two, slot_three], words = [''AB'', ''CDE''],
     overlaps = mismatch_overlaps, neighbors = mismatch_neighbors \<rparr>"

text \<open>
  The two crossing slots of length 3 and a third, separate slot of length 5, with the
  words CAT, ART, DOG: no word has the length of the third slot.
\<close>

definition slot_long :: variable where "slot_long = Variable 4 0 ACROSS 5"

definition stalled_overlaps :: "variable \<times> variable \<Rightarrow> (nat \<times> nat) option option" where
  "stalled_overlaps = (\<lambda>(x, y).
     if x = slot_across \<and> y = slot_down then Some (Some (1, 0))
     else if x = slot_down \<and> y = slot_across then Some (Some (0, 1))
     else if x \<noteq> y \<and> x \<in> {slot_across, slot_down, slot_long} \<and> y \<in> {slot_across, slot_down, slot_long}
       then Some None
     else None)"

definition stalled :: crossword where
  "stalled = \<lparr> variables = [slot_across, slot_down, slot_long], words = [''CAT'', ''ART'', ''DOG''],
     overlaps = stalled_overlaps, neighbors = crossing_neighbors \<rparr>"

text \<open>The root call of \<open>solve\<close> on the pruned store of the crossing slots.\<close>

definition crossing_memory :: memory where
  "crossing_memory =
     \<lparr> self_domains = [(slot_across, [''CAT'']), (slot_down, [''ART''])],
       dict_at = (\<lambda>r. []), next_address = 1 \<rparr>"

section \<open>Properties\<close>

subsection \<open>Dicts and the store\<close>

lemma map_of_dict_update: "map_of (dict_update ds k v) = (map_of ds)(k \<mapsto> v)"
  by (induction ds k v rule: dict_update.induct) auto

lemma map_fst_dict_update:
  "map_of ds k = Some d \<Longrightarrow> map fst (dict_update ds k v) = map fst ds"
  by (induction ds k v rule: dict_update.induct) (auto split: if_splits)

lemma wf_crossing: "wf_crossword crossing"
  by (auto simp: wf_crossword_def crossing_def crossing_overlaps_def crossing_neighbors_def
      slot_across_def slot_down_def)

lemma offsets_in_range_crossing: "offsets_in_range crossing"
  by (auto simp: offsets_in_range_def crossing_def crossing_overlaps_def
      slot_across_def slot_down_def split: if_splits)

subsection \<open>revise\<close>

lemma overlap_possible_supports:
  "overlap_possible a b v dy = Inr r \<Longrightarrow> r = (\<exists>w\<in>set dy. supports a b v w)"
  by (induction dy) (auto simp: supports_def split: if_splits)

lemma domains_to_remove_filter:
  "domains_to_remove ds y a b dx = Inr to_remove \<Longrightarrow>
     to_remove = filter (\<lambda>v. \<not> (\<exists>w\<in>set (domain_of ds y). supports a b v w)) dx"
proof (induction dx arbitrary: to_remove)
  case Nil
  then show ?case by simp
next
  case (Cons v dx)
  from Cons.prems obtain dy possible rest where
    dy: "map_of ds y = Some dy" and
    p: "overlap_possible a b v dy = Inr possible" and
    r: "domains_to_remove ds y a b dx = Inr rest" and
    t: "to_remove = (if possible then rest else v # rest)"
    by (auto split: option.splits sum.splits)
  from overlap_possible_supports [OF p] dy
  have "possible = (\<exists>w\<in>set (domain_of ds y). supports a b v w)"
    by (simp add: domain_of_def)
  with Cons.IH [OF r] t show ?case by simp
qed

lemma filter_not_in_filter: "filter (\<lambda>w. w \<notin> set (filter (\<lambda>v. \<not> P v) dx)) dx = filter P dx"
  by (rule filter_cong) auto

text \<open>
  What a normal return of \<open>revise\<close> did, in one place: with offsets \<open>(a, b)\<close> the new
  domain of \<open>x\<close> is the old one filtered by support in the domain of \<open>y\<close>; the flag
  tells whether the filter dropped a word; nothing else in the store changed.
\<close>

lemma revise_result:
  assumes "revise cw ds x y = Inr (revised, ds')"
  shows "(case overlaps cw (x, y) of
            Some (Some (a, b)) \<Rightarrow>
              ds' = (if revised
                     then dict_update ds x (filter (\<lambda>v. \<exists>w\<in>set (domain_of ds y). supports a b v w) (domain_of ds x))
                     else ds) \<and>
              (revised \<longrightarrow> map_of ds x \<noteq> None) \<and>
              (revised \<longleftrightarrow> (\<exists>v\<in>set (domain_of ds x). \<not> (\<exists>w\<in>set (domain_of ds y). supports a b v w)))
          | _ \<Rightarrow> ds' = ds \<and> \<not> revised)"
proof (cases "overlaps cw (x, y)")
  case None
  with assms show ?thesis by (simp add: revise_def)
next
  case (Some ov)
  note outer = Some
  show ?thesis
  proof (cases ov)
    case None
    with outer assms show ?thesis by (auto simp: revise_def)
  next
    case (Some ab)
    obtain a b where ab: "ab = (a, b)" by (cases ab)
    let ?sup = "\<lambda>v. \<exists>w\<in>set (domain_of ds y). supports a b v w"
    from assms outer Some ab obtain dx to_remove where
      dx: "map_of ds x = Some dx" and
      rem: "domains_to_remove ds y a b dx = Inr to_remove" and
      res: "(revised, ds') =
        (if to_remove \<noteq> [] then (True, dict_update ds x (filter (\<lambda>w. w \<notin> set to_remove) dx))
         else (False, ds))"
      by (auto simp: revise_def split: option.splits sum.splits if_splits)
    have to_remove: "to_remove = filter (\<lambda>v. \<not> ?sup v) dx"
      by (rule domains_to_remove_filter [OF rem])
    have keep: "filter (\<lambda>w. w \<notin> set to_remove) dx = filter ?sup dx"
      unfolding to_remove by (rule filter_not_in_filter)
    have dox: "domain_of ds x = dx" using dx by (simp add: domain_of_def)
    have ne: "to_remove \<noteq> [] \<longleftrightarrow> (\<exists>v\<in>set dx. \<not> ?sup v)"
      unfolding to_remove by (simp add: filter_empty_conv)
    show ?thesis
    proof (cases "to_remove = []")
      case True
      with res have "\<not> revised" "ds' = ds" by auto
      with True ne dox outer Some ab show ?thesis by simp
    next
      case False
      with res keep have "revised" "ds' = dict_update ds x (filter ?sup dx)" by auto
      with False ne dox dx outer Some ab show ?thesis by simp
    qed
  qed
qed

text \<open>
  C6. On a normal return, \<open>revise(x, y)\<close> leaves in the domain of \<open>x\<close> exactly the words
  \<open>v\<close> that have a word \<open>w\<close> in the domain of \<open>y\<close> with \<open>w \<noteq> v\<close> and \<open>v[a] = w[b]\<close>
  (so it removes exactly the words with no such \<open>w\<close>); without an overlap it changes
  nothing; the other domains are untouched; and the returned flag is true exactly when
  a word left the domain of \<open>x\<close>.
\<close>

theorem revise_removes_unsupported:
  assumes "revise cw ds x y = Inr (revised, ds')"
  shows "(case overlaps cw (x, y) of
            Some (Some (a, b)) \<Rightarrow>
              domain_of ds' x =
                filter (\<lambda>v. \<exists>w\<in>set (domain_of ds y). supports a b v w) (domain_of ds x)
          | _ \<Rightarrow> ds' = ds)
       \<and> (\<forall>z. z \<noteq> x \<longrightarrow> map_of ds' z = map_of ds z)
       \<and> (revised \<longleftrightarrow> (\<exists>v\<in>set (domain_of ds x). v \<notin> set (domain_of ds' x)))"
proof (cases "overlaps cw (x, y)")
  case None
  with assms show ?thesis by (simp add: revise_def)
next
  case (Some ov)
  note outer = Some
  show ?thesis
  proof (cases ov)
    case None
    with outer revise_result [OF assms] show ?thesis by auto
  next
    case (Some ab)
    obtain a b where ab: "ab = (a, b)" by (cases ab)
    let ?sup = "\<lambda>v. \<exists>w\<in>set (domain_of ds y). supports a b v w"
    from revise_result [OF assms] outer Some ab have
      ds': "ds' = (if revised then dict_update ds x (filter ?sup (domain_of ds x)) else ds)" and
      rev: "revised \<longleftrightarrow> (\<exists>v\<in>set (domain_of ds x). \<not> ?sup v)"
      by auto
    show ?thesis
    proof (cases revised)
      case True
      with ds' have dox': "domain_of ds' x = filter ?sup (domain_of ds x)"
        by (simp add: domain_of_def map_of_dict_update)
      from True rev obtain v where "v \<in> set (domain_of ds x)" "\<not> ?sup v" by auto
      then have "\<exists>v\<in>set (domain_of ds x). v \<notin> set (filter ?sup (domain_of ds x))" by auto
      with True ds' dox' outer Some ab show ?thesis
        by (simp add: map_of_dict_update)
    next
      case False
      with rev have "filter ?sup (domain_of ds x) = domain_of ds x"
        by (simp add: filter_id_conv)
      with False ds' outer Some ab show ?thesis by simp
    qed
  qed
qed

theorem revise_removes_unsupported_witness:
  "revise crossing [(slot_across, [''CAT'', ''ART'', ''DOG'']), (slot_down, [''CAT'', ''ART'', ''DOG''])]
      slot_across slot_down
     = Inr (True, [(slot_across, [''CAT'']), (slot_down, [''CAT'', ''ART'', ''DOG''])])
   \<and> domain_of [(slot_across, [''CAT'']), (slot_down, [''CAT'', ''ART'', ''DOG''])] slot_across
     = filter (\<lambda>v. \<exists>w\<in>set [''CAT'', ''ART'', ''DOG'']. supports 1 0 v w) [''CAT'', ''ART'', ''DOG'']
   \<and> (\<exists>v\<in>set [''CAT'', ''ART'', ''DOG''].
         v \<notin> set (domain_of [(slot_across, [''CAT'']), (slot_down, [''CAT'', ''ART'', ''DOG''])] slot_across))"
proof -
  have run: "revise crossing [(slot_across, [''CAT'', ''ART'', ''DOG'']), (slot_down, [''CAT'', ''ART'', ''DOG''])]
      slot_across slot_down
     = Inr (True, [(slot_across, [''CAT'']), (slot_down, [''CAT'', ''ART'', ''DOG''])])"
    by (simp add: revise_def crossing_def crossing_overlaps_def slot_across_def slot_down_def)
  have ov: "overlaps crossing (slot_across, slot_down) = Some (Some (1, 0))"
    by (simp add: crossing_def crossing_overlaps_def)
  from revise_removes_unsupported [OF run] ov run show ?thesis
    by (simp add: domain_of_def supports_def slot_across_def slot_down_def)
qed

text \<open>
  C10. When every word in the store has the length of its slot and every recorded
  offset lies inside its slot, the character accesses of \<open>revise\<close> are in range:
  \<open>revise\<close> never raises IndexError, whatever arc it is given.
\<close>

lemma node_consistent_domain_of:
  "node_consistent ds \<Longrightarrow> w \<in> set (domain_of ds x) \<Longrightarrow> length w = var_length x"
proof -
  assume nc: "node_consistent ds" and w: "w \<in> set (domain_of ds x)"
  from w obtain d where d: "map_of ds x = Some d" "w \<in> set d"
    by (cases "map_of ds x") (auto simp: domain_of_def)
  from d(1) have "(x, d) \<in> set ds" by (rule map_of_SomeD)
  with nc d(2) show ?thesis
    by (auto simp: node_consistent_def list_all_iff)
qed

lemma overlap_possible_in_range:
  "a < length v \<Longrightarrow> \<forall>w\<in>set dy. b < length w \<Longrightarrow> \<exists>r. overlap_possible a b v dy = Inr r"
  by (induction dy) auto

lemma domains_to_remove_in_range:
  assumes "\<forall>v\<in>set dx. a < length v" "\<forall>w\<in>set (domain_of ds y). b < length w"
  shows "domains_to_remove ds y a b dx \<noteq> Inl IndexError"
  using assms(1)
proof (induction dx)
  case Nil
  then show ?case by simp
next
  case (Cons v dx)
  show ?case
  proof (cases "map_of ds y")
    case None
    then show ?thesis by simp
  next
    case (Some dy)
    with assms(2) have "\<forall>w\<in>set dy. b < length w" by (simp add: domain_of_def)
    with Cons.prems obtain r where "overlap_possible a b v dy = Inr r"
      using overlap_possible_in_range [of a v dy b] by auto
    with Some Cons show ?thesis by (auto split: sum.splits)
  qed
qed

theorem revise_index_in_range:
  assumes "node_consistent ds" "offsets_in_range cw"
  shows "revise cw ds x y \<noteq> Inl IndexError"
proof (cases "overlaps cw (x, y)")
  case None
  then show ?thesis by (simp add: revise_def)
next
  case (Some ov)
  note outer = Some
  show ?thesis
  proof (cases ov)
    case None
    with outer show ?thesis by (simp add: revise_def)
  next
    case (Some ab)
    obtain a b where ab: "ab = (a, b)" by (cases ab)
    with outer Some assms(2) have range: "a < var_length x" "b < var_length y"
      by (auto simp: offsets_in_range_def)
    show ?thesis
    proof (cases "map_of ds x")
      case None
      with outer Some ab show ?thesis by (simp add: revise_def)
    next
      case (Some dx)
      then have dx: "domain_of ds x = dx" by (simp add: domain_of_def)
      have "\<forall>v\<in>set dx. a < length v"
        using node_consistent_domain_of [OF assms(1), of _ x] range dx by auto
      moreover have "\<forall>w\<in>set (domain_of ds y). b < length w"
        using node_consistent_domain_of [OF assms(1), of _ y] range by auto
      ultimately have "domains_to_remove ds y a b dx \<noteq> Inl IndexError"
        by (rule domains_to_remove_in_range)
      with outer \<open>ov = Some ab\<close> ab Some show ?thesis
        by (auto simp: revise_def split: sum.splits)
    qed
  qed
qed

theorem revise_index_in_range_witness:
  "node_consistent [(slot_across, [''CAT'', ''ART'', ''DOG'']), (slot_down, [''CAT'', ''ART'', ''DOG''])]
   \<and> offsets_in_range crossing
   \<and> revise crossing [(slot_across, [''CAT'', ''ART'', ''DOG'']), (slot_down, [''CAT'', ''ART'', ''DOG''])]
        slot_across slot_down \<noteq> Inl IndexError"
proof -
  have nc: "node_consistent [(slot_across, [''CAT'', ''ART'', ''DOG'']), (slot_down, [''CAT'', ''ART'', ''DOG''])]"
    by (simp add: node_consistent_def slot_across_def slot_down_def)
  from revise_index_in_range [OF nc offsets_in_range_crossing] nc offsets_in_range_crossing
  show ?thesis by simp
qed

subsection \<open>Node consistency\<close>

lemma dict_update_twice: "dict_update (dict_update ds k v) k v' = dict_update ds k v'"
  by (induction ds k v rule: dict_update.induct) auto

lemma dict_update_same: "map_of ds k = Some v \<Longrightarrow> dict_update ds k v = ds"
  by (induction ds k v rule: dict_update.induct) (auto split: if_splits)

text \<open>
  The inner loop on a slot whose domain still holds every word that is to be removed:
  no \<open>remove\<close> fails, and the domain is filtered by the words' lengths.
\<close>

lemma node_consistency_words_fresh:
  assumes "map_of ds v = Some d" "distinct ws"
    "\<forall>w\<in>set ws. length w \<noteq> var_length v \<longrightarrow> w \<in> set d"
  shows "node_consistency_words v ws ds =
           Inr (dict_update ds v (filter (\<lambda>w. w \<in> set ws \<longrightarrow> length w = var_length v) d))"
  using assms
proof (induction ws arbitrary: ds d)
  case Nil
  then show ?case by (simp add: dict_update_same)
next
  case (Cons word rest)
  show ?case
  proof (cases "length word = var_length v")
    case True
    have "filter (\<lambda>w. w \<in> set (word # rest) \<longrightarrow> length w = var_length v) d
        = filter (\<lambda>w. w \<in> set rest \<longrightarrow> length w = var_length v) d"
      using True by (intro filter_cong) auto
    with True Cons.IH [of ds d] Cons.prems show ?thesis by simp
  next
    case False
    with Cons.prems have in_d: "word \<in> set d" by simp
    let ?d' = "removeAll word d"
    let ?ds' = "dict_update ds v ?d'"
    have m: "map_of ?ds' v = Some ?d'" by (simp add: map_of_dict_update)
    have rest: "\<forall>w\<in>set rest. length w \<noteq> var_length v \<longrightarrow> w \<in> set ?d'"
      using Cons.prems by auto
    from Cons.prems have "distinct rest" by simp
    from Cons.IH [OF m this rest]
    have "node_consistency_words v rest ?ds' =
            Inr (dict_update ds v (filter (\<lambda>w. w \<in> set rest \<longrightarrow> length w = var_length v) ?d'))"
      by (simp add: dict_update_twice)
    moreover have "filter (\<lambda>w. w \<in> set rest \<longrightarrow> length w = var_length v) ?d'
        = filter (\<lambda>w. w \<in> set (word # rest) \<longrightarrow> length w = var_length v) d"
      using False by (induction d) auto
    ultimately show ?thesis
      using False in_d Cons.prems(1) by (simp add: set_remove_def)
  qed
qed

lemma node_consistency_words_init:
  assumes "map_of ds v = Some ws" "distinct ws"
  shows "node_consistency_words v ws ds =
           Inr (dict_update ds v (filter (\<lambda>w. length w = var_length v) ws))"
proof -
  have "filter (\<lambda>w. w \<in> set ws \<longrightarrow> length w = var_length v) ws
      = filter (\<lambda>w. length w = var_length v) ws"
    by (intro filter_cong) auto
  with node_consistency_words_fresh [OF assms(1) assms(2)] show ?thesis by simp
qed

text \<open>
  The outer loop over slots \<open>vs\<close> that still hold the whole word list, in a store whose
  earlier entries \<open>done\<close> are already filtered.
\<close>

lemma node_consistency_variables_init:
  assumes "distinct ws" "distinct (map fst done @ vs)"
  shows "node_consistency_variables ws vs (done @ map (\<lambda>v. (v, ws)) vs) =
           Inr (done @ map (\<lambda>v. (v, filter (\<lambda>w. length w = var_length v) ws)) vs)"
  using assms(2)
proof (induction vs arbitrary: "done")
  case Nil
  then show ?case by simp
next
  case (Cons v vs)
  let ?ds = "done @ map (\<lambda>v. (v, ws)) (v # vs)"
  let ?f = "\<lambda>v. filter (\<lambda>w. length w = var_length v) ws"
  from Cons.prems have notin: "v \<notin> fst ` set done" by auto
  then have "map_of done v = None" by (simp add: map_of_eq_None_iff)
  then have m: "map_of ?ds v = Some ws"
    by (simp add: map_add_def)
  have upd: "dict_update ?ds v (?f v) = (done @ [(v, ?f v)]) @ map (\<lambda>v. (v, ws)) vs"
    using notin by (induction "done") auto
  from Cons.prems have "distinct (map fst (done @ [(v, ?f v)]) @ vs)" by auto
  from Cons.IH [OF this] node_consistency_words_init [OF m assms(1)] upd
  show ?case by simp
qed

lemma enforce_node_consistency_init:
  assumes "distinct (variables cw)" "distinct (words cw)"
  shows "enforce_node_consistency cw (CrosswordCreator cw) =
           Inr (map (\<lambda>v. (v, filter (\<lambda>w. length w = var_length v) (words cw))) (variables cw))"
  using node_consistency_variables_init [of "words cw" "[]" "variables cw"] assms
  by (simp add: enforce_node_consistency_def CrosswordCreator_def)

text \<open>
  C3 (the code differs). The first pass on the fresh store succeeds. A second pass
  calls \<open>remove\<close> again for every word of the list whose length differs from the
  slot's, and that word is no longer in the slot's set: with the slot of length 3 and
  the words CAT and AT, the first pass leaves CAT and the second raises KeyError.
\<close>

theorem enforce_node_consistency_second_pass_raises:
  "enforce_node_consistency single (CrosswordCreator single) = Inr [(slot_across, [''CAT''])]
   \<and> enforce_node_consistency single [(slot_across, [''CAT''])] = Inl KeyError"
  by (simp add: enforce_node_consistency_def CrosswordCreator_def single_def slot_across_def
      set_remove_def)

subsection \<open>A domain that is empty before the propagation\<close>

text \<open>
  C7 (the code differs). A domain that is empty before the propagation starts is never
  noticed: \<open>ac3\<close> tests a domain for emptiness only right after a revision removed a
  word from it. With one slot of length 3 and the word list AT, node consistency
  leaves the slot's domain empty and \<open>ac3\<close> returns True.
\<close>

theorem ac3_true_with_empty_domain:
  "enforce_node_consistency unmatched (CrosswordCreator unmatched) = Inr [(slot_across, [])]
   \<and> ac3 unmatched [(slot_across, [])] None = Inr (True, [(slot_across, [])])"
  by (simp add: enforce_node_consistency_def CrosswordCreator_def unmatched_def slot_across_def
      set_remove_def ac3_def initial_queue_def)

subsection \<open>Soundness of the search\<close>

lemma assignment_complete_loop_iff:
  "assignment_complete_loop ws asg vs \<longleftrightarrow>
     (\<forall>v\<in>set vs. \<exists>w. map_of asg v = Some w \<and> w \<in> set ws)"
  by (induction vs) (auto split: option.splits)

lemma assignment_complete_iff:
  "assignment_complete cw asg \<longleftrightarrow>
     (\<forall>v\<in>set (variables cw). \<exists>w. map_of asg v = Some w \<and> w \<in> set (words cw))"
  by (simp add: assignment_complete_def assignment_complete_loop_iff)

text \<open>One entry against all entries: what the inner loop of \<open>consistent\<close> checks.\<close>

definition entry_ok :: "crossword \<Rightarrow> variable \<Rightarrow> string \<Rightarrow> assignment \<Rightarrow> bool" where
  "entry_ok cw x word1 asg \<longleftrightarrow>
     (\<forall>(y, word2)\<in>set asg. x \<noteq> y \<longrightarrow>
        word1 \<noteq> word2 \<and>
        (\<forall>a b. overlaps cw (x, y) = Some (Some (a, b)) \<longrightarrow>
           a < length word1 \<and> b < length word2 \<and> word1 ! a = word2 ! b))"

lemma consistent_inner_entry_ok:
  "consistent_inner cw x word1 asg = Inr ok \<Longrightarrow> ok = entry_ok cw x word1 asg"
proof (induction asg)
  case Nil
  then show ?case by (simp add: entry_ok_def)
next
  case (Cons p asg)
  obtain y word2 where p: "p = (y, word2)" by (cases p)
  have split: "entry_ok cw x word1 ((y, word2) # asg) \<longleftrightarrow>
      (x \<noteq> y \<longrightarrow> word1 \<noteq> word2 \<and>
        (\<forall>a b. overlaps cw (x, y) = Some (Some (a, b)) \<longrightarrow>
           a < length word1 \<and> b < length word2 \<and> word1 ! a = word2 ! b))
      \<and> entry_ok cw x word1 asg"
    by (simp add: entry_ok_def)
  from Cons.prems [unfolded p] Cons.IH have "ok = entry_ok cw x word1 ((y, word2) # asg)"
    unfolding split
    by (auto split: if_splits option.splits)
  then show ?case by (simp add: p)
qed

lemma consistent_outer_entries:
  "consistent_outer cw asg rest = Inr ok \<Longrightarrow>
     ok = (\<forall>(x, word1)\<in>set rest. var_length x = length word1 \<and> entry_ok cw x word1 asg)"
proof (induction rest)
  case Nil
  then show ?case by simp
next
  case (Cons p rest)
  obtain x word1 where p: "p = (x, word1)" by (cases p)
  show ?case
  proof (cases "var_length x = length word1")
    case False
    with Cons.prems p show ?thesis by auto
  next
    case True
    with Cons.prems p obtain ok1 where
      ok1: "consistent_inner cw x word1 asg = Inr ok1" and
      rest: "(if ok1 then consistent_outer cw asg rest else Inr False) = Inr ok"
      by (auto split: sum.splits)
    from consistent_inner_entry_ok [OF ok1] have e: "ok1 = entry_ok cw x word1 asg" .
    show ?thesis
    proof (cases ok1)
      case True
      with rest Cons.IH e \<open>var_length x = length word1\<close> p show ?thesis by simp
    next
      case False
      with rest e p show ?thesis by auto
    qed
  qed
qed

lemma consistent_entries:
  "consistent cw asg = Inr ok \<Longrightarrow> ok = consistent_entries cw asg"
  by (drule consistent_outer_entries [of cw asg asg ok, unfolded consistent_def [symmetric]])
     (simp add: consistent_entries_def entry_ok_def)

lemma truthy_Some: "truthy result \<longleftrightarrow> (\<exists>r. result = Some r \<and> r \<noteq> [])"
  by (cases result) (auto simp: truthy_def)

lemma dict_update_nonempty: "dict_update asg k v \<noteq> []"
  by (induction asg k v rule: dict_update.induct) auto

text \<open>
  What a returned assignment is: complete; either the very assignment
  \<open>backtrack\<close> was called with or one that passed \<open>consistent\<close>; and its keys are keys of
  the input or slots.
\<close>

lemma backtrack_returns:
  "backtrack cw ds asg = Inr (Some r) \<Longrightarrow>
     assignment_complete cw r \<and> (r = asg \<or> consistent_entries cw r \<and> r \<noteq> [])
     \<and> fst ` set r \<subseteq> fst ` set asg \<union> set (variables cw)"
  "backtrack_values cw ds asg var vals = Inr (Some r) \<Longrightarrow> var \<in> set (variables cw) \<Longrightarrow>
     assignment_complete cw r \<and> consistent_entries cw r \<and> r \<noteq> []
     \<and> fst ` set r \<subseteq> fst ` set asg \<union> set (variables cw)"
proof (induction cw ds asg and cw ds asg var vals arbitrary: r and r
    rule: backtrack_backtrack_values.induct)
  case (1 cw ds asg)
  show ?case
  proof (cases "assignment_complete cw asg")
    case True
    with "1.prems" show ?thesis by auto
  next
    case False
    with "1.prems" obtain var vals where
      sel: "select_unassigned_variable cw ds asg = Inr (Some var)" and
      ord: "order_domain_values cw ds var asg = Inr vals" and
      run: "backtrack_values cw ds asg var vals = Inr (Some r)"
      by (auto split: sum.splits option.splits)
    from select_unassigned_variable_Some [OF sel] have "var \<in> set (variables cw)"
      by (simp add: unassigned_def)
    from "1.IH" [OF False sel refl ord run this] show ?thesis by simp
  qed
next
  case (2 cw ds asg var)
  then show ?case by simp
next
  case (3 cw ds asg var val vals)
  let ?new = "dict_update asg var val"
  from "3.prems"(1) obtain ok where ok: "consistent cw ?new = Inr ok"
    by (auto simp: Let_def split: sum.splits)
  show ?case
  proof (cases ok)
    case False
    with ok "3.prems" have "backtrack_values cw ds asg var vals = Inr (Some r)"
      by (simp add: Let_def)
    from "3.IH"(3) [OF refl ok _ this "3.prems"(2)] False show ?thesis by simp
  next
    case True
    with ok "3.prems"(1) obtain result where
      res: "backtrack cw ds ?new = Inr result" and
      fin: "(if truthy result then Inr result else backtrack_values cw ds asg var vals) = Inr (Some r)"
      by (auto simp: Let_def split: sum.splits)
    show ?thesis
    proof (cases "truthy result")
      case False
      with fin have "backtrack_values cw ds asg var vals = Inr (Some r)" by simp
      from "3.IH"(2) [OF refl ok True res False this "3.prems"(2)] show ?thesis .
    next
      case t: True
      with fin have result: "result = Some r" by simp
      from "3.IH"(1) [OF refl ok True res [unfolded result]]
      have c: "assignment_complete cw r"
        and alt: "r = ?new \<or> consistent_entries cw r \<and> r \<noteq> []"
        and keys: "fst ` set r \<subseteq> fst ` set ?new \<union> set (variables cw)"
        by auto
      from consistent_entries [OF ok] True have "consistent_entries cw ?new" by simp
      with alt have "consistent_entries cw r \<and> r \<noteq> []"
        by (auto simp: dict_update_nonempty)
      moreover from keys "3.prems"(2) have "fst ` set r \<subseteq> fst ` set asg \<union> set (variables cw)"
        by (auto simp: dict_update_keys)
      ultimately show ?thesis using c by simp
    qed
  qed
qed

lemma consistent_entries_valid:
  assumes "assignment_complete cw r" "consistent_entries cw r"
  shows "valid_assignment cw (map_of r)"
proof -
  have len: "\<exists>w. map_of r x = Some w \<and> w \<in> set (words cw) \<and> length w = var_length x"
    if "x \<in> set (variables cw)" for x
  proof -
    from assms(1) that obtain w where w: "map_of r x = Some w" "w \<in> set (words cw)"
      by (auto simp: assignment_complete_iff)
    from w(1) have "(x, w) \<in> set r" by (rule map_of_SomeD)
    with assms(2) have "var_length x = length w" by (auto simp: consistent_entries_def)
    with w show ?thesis by simp
  qed
  have pair: "w1 \<noteq> w2 \<and> (\<forall>a b. overlaps cw (x, y) = Some (Some (a, b)) \<longrightarrow>
             a < length w1 \<and> b < length w2 \<and> w1 ! a = w2 ! b)"
    if "x \<noteq> y" "map_of r x = Some w1" "map_of r y = Some w2" for x y w1 w2
  proof -
    from that have "(x, w1) \<in> set r" "(y, w2) \<in> set r" by (auto dest: map_of_SomeD)
    with assms(2) that(1) show ?thesis
      unfolding consistent_entries_def by fastforce
  qed
  from len pair show ?thesis unfolding valid_assignment_def by blast
qed

text \<open>
  C1. Whatever store \<open>solve\<close> starts from: an assignment it returns has exactly the
  slots as keys, gives every slot a word of the list of the slot's length, gives
  distinct slots distinct words (overlapping or not), and the words of two slots with
  an overlap carry the same letter at their offsets.
\<close>

theorem solve_sound:
  assumes "solve cw ds = Inr (Some r, ds')"
  shows "valid_assignment cw (map_of r) \<and> fst ` set r = set (variables cw)"
proof -
  from assms obtain ds2 where run: "backtrack cw ds2 [] = Inr (Some r)"
    by (auto simp: solve_def split: sum.splits prod.splits)
  from backtrack_returns(1) [OF run] have
    c: "assignment_complete cw r" and
    alt: "r = [] \<or> consistent_entries cw r" and
    keys: "fst ` set r \<subseteq> set (variables cw)"
    by auto
  have all: "set (variables cw) \<subseteq> fst ` set r"
  proof
    fix x assume "x \<in> set (variables cw)"
    with c obtain w where "map_of r x = Some w" by (auto simp: assignment_complete_iff)
    then have "(x, w) \<in> set r" by (rule map_of_SomeD)
    then show "x \<in> fst ` set r" by force
  qed
  have "consistent_entries cw []" by (simp add: consistent_entries_def)
  with alt have "consistent_entries cw r" by auto
  from consistent_entries_valid [OF c this] keys all show ?thesis by auto
qed

lemma solve_crossing:
  "solve crossing (CrosswordCreator crossing) =
     Inr (Some [(slot_across, ''CAT''), (slot_down, ''ART'')],
          [(slot_across, [''CAT'']), (slot_down, [''ART''])])"
  by (simp add: solve_def crossing_def crossing_overlaps_def crossing_neighbors_def
      CrosswordCreator_def enforce_node_consistency_def slot_across_def slot_down_def
      set_remove_def ac3_def initial_queue_def revise_def assignment_complete_def
      select_unassigned_variable_def order_domain_values_def consistent_def truthy_def)

theorem solve_sound_witness:
  "solve crossing (CrosswordCreator crossing) =
     Inr (Some [(slot_across, ''CAT''), (slot_down, ''ART'')],
          [(slot_across, [''CAT'']), (slot_down, [''ART''])])
   \<and> valid_assignment crossing (map_of [(slot_across, ''CAT''), (slot_down, ''ART'')])
   \<and> fst ` set [(slot_across, ''CAT''), (slot_down, ''ART'')] = set (variables crossing)"
  using solve_sound [OF solve_crossing] solve_crossing by simp

subsection \<open>One revision on a well-formed store\<close>

lemma store_of_lookup:
  assumes "store_of cw ds" "x \<in> set (variables cw)"
  shows "map_of ds x = Some (domain_of ds x)"
proof -
  from assms have "x \<in> fst ` set ds" by (simp add: store_of_def flip: set_map)
  then obtain d where "map_of ds x = Some d"
    by (cases "map_of ds x") (auto simp: map_of_eq_None_iff)
  then show ?thesis by (simp add: domain_of_def)
qed

lemma domain_of_dict_update:
  "domain_of (dict_update ds x d) = (domain_of ds)(x := d)"
  by (rule ext) (simp add: domain_of_def map_of_dict_update)

lemma set_dict_update_subset: "set (dict_update ds k v) \<subseteq> insert (k, v) (set ds)"
  by (induction ds k v rule: dict_update.induct) auto

lemma node_consistent_dict_update:
  assumes "node_consistent ds" "\<forall>w\<in>set d. length w = var_length x"
  shows "node_consistent (dict_update ds x d)"
  unfolding node_consistent_def list_all_iff
proof (intro ballI)
  fix p assume "p \<in> set (dict_update ds x d)"
  with set_dict_update_subset [of ds x d] have "p = (x, d) \<or> p \<in> set ds" by auto
  with assms show "case p of (v, d) \<Rightarrow> \<forall>w\<in>set d. length w = var_length v"
    by (auto simp: node_consistent_def list_all_iff)
qed

lemma supported_filter_id:
  "\<forall>v\<in>set d. supported cw ds x y v \<Longrightarrow> filter (supported cw ds x y) d = d"
  by (simp add: filter_id_conv)

text \<open>The effect of a normal return of \<open>revise\<close> on the domains.\<close>

lemma revise_domain_of:
  assumes "revise cw ds x y = Inr (revised, ds')"
  shows "domain_of ds' = (domain_of ds)(x := filter (supported cw ds x y) (domain_of ds x))"
    and "revised \<longleftrightarrow> (\<exists>v\<in>set (domain_of ds x). \<not> supported cw ds x y v)"
    and "map fst ds' = map fst ds"
    and "revised \<Longrightarrow> map_of ds' x = Some (domain_of ds' x)"
    and "\<not> revised \<Longrightarrow> ds' = ds"
proof -
  note r = revise_result [OF assms]
  have rev: "revised \<longleftrightarrow> (\<exists>v\<in>set (domain_of ds x). \<not> supported cw ds x y v)"
  proof (cases "\<exists>a b. overlaps cw (x, y) = Some (Some (a, b))")
    case True
    then obtain a b where "overlaps cw (x, y) = Some (Some (a, b))" by blast
    with r show ?thesis by (simp add: supported_def)
  next
    case False
    with r have "\<not> revised" by (auto split: option.splits)
    moreover from False have "supported cw ds x y v" for v
      by (auto simp: supported_def split: option.splits)
    ultimately show ?thesis by simp
  qed
  show "revised \<longleftrightarrow> (\<exists>v\<in>set (domain_of ds x). \<not> supported cw ds x y v)" by (rule rev)
  show unrev: "ds' = ds" if "\<not> revised"
    using r that by (auto split: option.splits if_splits)
  have upd: "ds' = dict_update ds x (filter (supported cw ds x y) (domain_of ds x))
      \<and> map_of ds x \<noteq> None" if "revised"
  proof -
    from r that obtain a b where ov: "overlaps cw (x, y) = Some (Some (a, b))"
      by (auto split: option.splits)
    then have "supported cw ds x y = (\<lambda>v. \<exists>w\<in>set (domain_of ds y). supports a b v w)"
      by (simp add: supported_def fun_eq_iff)
    with r ov that show ?thesis by simp
  qed
  show "domain_of ds' = (domain_of ds)(x := filter (supported cw ds x y) (domain_of ds x))"
  proof (cases revised)
    case True
    with upd show ?thesis by (simp add: domain_of_dict_update)
  next
    case False
    with rev have "filter (supported cw ds x y) (domain_of ds x) = domain_of ds x"
      by (simp add: filter_id_conv)
    with unrev [OF False] show ?thesis by simp
  qed
  show "map fst ds' = map fst ds"
  proof (cases revised)
    case True
    with upd obtain d where "map_of ds x = Some d" by auto
    from map_fst_dict_update [OF this] upd True show ?thesis by simp
  next
    case False
    with unrev show ?thesis by simp
  qed
  show "map_of ds' x = Some (domain_of ds' x)" if "revised"
    using upd [OF that] by (simp add: map_of_dict_update domain_of_def)
qed

lemma domains_to_remove_returns:
  assumes "map_of ds y = Some dy" "\<forall>v\<in>set dx. a < length v" "\<forall>w\<in>set dy. b < length w"
  shows "\<exists>r. domains_to_remove ds y a b dx = Inr r"
  using assms(2)
proof (induction dx)
  case Nil
  then show ?case by simp
next
  case (Cons v dx)
  then obtain r where r: "domains_to_remove ds y a b dx = Inr r" by auto
  from Cons.prems assms(3) obtain p where "overlap_possible a b v dy = Inr p"
    using overlap_possible_in_range [of a v dy b] by auto
  with r assms(1) show ?case by simp
qed

text \<open>
  On a store keyed by the slots and node consistent, over a well-formed grid,
  \<open>revise\<close> returns normally for an arc between distinct slots, and keeps the store
  keyed by the slots and node consistent.
\<close>

lemma revise_returns:
  assumes wf: "wf_crossword cw" and st: "store_of cw ds" and nc: "node_consistent ds"
    and arc: "(x, y) \<in> slot_arcs cw"
  shows "\<exists>revised ds'. revise cw ds x y = Inr (revised, ds')"
proof -
  from arc have x: "x \<in> set (variables cw)" and y: "y \<in> set (variables cw)" and ne: "x \<noteq> y"
    by (auto simp: slot_arcs_def)
  from wf x y ne have ov: "case overlaps cw (x, y) of None \<Rightarrow> False | Some None \<Rightarrow> True
      | Some (Some (a, b)) \<Rightarrow> a < var_length x \<and> b < var_length y"
    unfolding wf_crossword_def by (fastforce split: option.splits)
  show ?thesis
  proof (cases "overlaps cw (x, y)")
    case None
    with ov show ?thesis by simp
  next
    case (Some o1)
    show ?thesis
    proof (cases o1)
      case None
      with Some have "revise cw ds x y = Inr (False, ds)" by (simp add: revise_def)
      then show ?thesis by blast
    next
      case (Some ab)
      obtain a b where ab: "ab = (a, b)" by (cases ab)
      with ov \<open>overlaps cw (x, y) = Some o1\<close> Some
      have range: "a < var_length x" "b < var_length y" by auto
      have "\<forall>v\<in>set (domain_of ds x). a < length v"
        using node_consistent_domain_of [OF nc, of _ x] range by auto
      moreover have "\<forall>w\<in>set (domain_of ds y). b < length w"
        using node_consistent_domain_of [OF nc, of _ y] range by auto
      ultimately obtain r where "domains_to_remove ds y a b (domain_of ds x) = Inr r"
        using domains_to_remove_returns [OF store_of_lookup [OF st y]] by blast
      with store_of_lookup [OF st x] \<open>overlaps cw (x, y) = Some o1\<close> Some ab
      show ?thesis by (auto simp: revise_def)
    qed
  qed
qed

lemma revise_keeps_store:
  assumes "revise cw ds x y = Inr (revised, ds')"
  shows "store_of cw ds \<Longrightarrow> store_of cw ds'"
    and "node_consistent ds \<Longrightarrow> node_consistent ds'"
proof -
  show "store_of cw ds'" if "store_of cw ds"
    using that revise_domain_of(3) [OF assms] by (simp add: store_of_def)
  show "node_consistent ds'" if nc: "node_consistent ds"
  proof (cases revised)
    case False
    with revise_domain_of(5) [OF assms] nc show ?thesis by simp
  next
    case True
    with revise_result [OF assms]
    have "\<exists>P. ds' = dict_update ds x (filter P (domain_of ds x))"
      by (auto split: option.splits)
    then obtain P where "ds' = dict_update ds x (filter P (domain_of ds x))" ..
    moreover have "\<forall>w\<in>set (filter P (domain_of ds x)). length w = var_length x"
      using node_consistent_domain_of [OF nc, of _ x] by auto
    ultimately show ?thesis using node_consistent_dict_update [OF nc] by simp
  qed
qed

subsection \<open>The queue holds arcs between distinct slots\<close>

lemma neighbors_slots:
  assumes "wf_crossword cw" "x \<in> set (variables cw)" "z \<in> set (neighbors cw x)"
  shows "z \<in> set (variables cw)" "z \<noteq> x" "\<exists>ab. overlaps cw (z, x) = Some (Some ab)"
  using assms unfolding wf_crossword_def by auto

lemma neighbors_iff:
  assumes "wf_crossword cw" "x \<in> set (variables cw)"
  shows "z \<in> set (neighbors cw x) \<longleftrightarrow>
    z \<in> set (variables cw) \<and> z \<noteq> x \<and> (\<exists>ab. overlaps cw (z, x) = Some (Some ab))"
  using assms unfolding wf_crossword_def by auto

lemma initial_queue_arcs:
  assumes "wf_crossword cw"
  shows "set (initial_queue cw) \<subseteq> slot_arcs cw"
  using neighbors_slots [OF assms]
  by (fastforce simp: initial_queue_def slot_arcs_def)

lemma requeue_arcs:
  assumes "wf_crossword cw" "x \<in> set (variables cw)"
  shows "set (map (\<lambda>z. (z, x)) (filter (\<lambda>z. z \<noteq> y) (neighbors cw x))) \<subseteq> slot_arcs cw"
  using neighbors_slots [OF assms] assms(2)
  by (fastforce simp: slot_arcs_def)

subsection \<open>The propagation loop returns\<close>

text \<open>
  On a well-formed grid, a store keyed by the slots and node consistent, and a queue
  of arcs between distinct slots, \<open>ac3\<close>'s loop returns normally. The store it leaves
  is again keyed by the slots and node consistent; every domain is the old one with
  some words filtered out; a True return emptied no domain that held a word, and a
  False return emptied one.
\<close>

lemma ac3_loop_returns:
  "wf_crossword cw \<Longrightarrow> store_of cw ds \<Longrightarrow> node_consistent ds \<Longrightarrow> set queue \<subseteq> slot_arcs cw \<Longrightarrow>
    \<exists>b ds'. ac3_loop cw queue ds = Inr (b, ds') \<and> store_of cw ds' \<and> node_consistent ds'
      \<and> (\<forall>x. domain_of ds' x = filter (\<lambda>w. w \<in> set (domain_of ds' x)) (domain_of ds x))
      \<and> (b \<longrightarrow> (\<forall>x. domain_of ds x \<noteq> [] \<longrightarrow> domain_of ds' x \<noteq> []))
      \<and> (\<not> b \<longrightarrow> (\<exists>x\<in>set (variables cw). domain_of ds x \<noteq> [] \<and> domain_of ds' x = []))"
proof (induction cw queue ds rule: ac3_loop.induct)
  case (1 cw ds)
  then have "ac3_loop cw [] ds = Inr (True, ds) \<and> store_of cw ds \<and> node_consistent ds
      \<and> (\<forall>x. domain_of ds x = filter (\<lambda>w. w \<in> set (domain_of ds x)) (domain_of ds x))"
    by (simp add: filter_id_conv)
  then show ?case by blast
next
  case (2 cw x y queue ds)
  note wf = "2.prems"(1)
  from "2.prems" have arc: "(x, y) \<in> slot_arcs cw" and queue: "set queue \<subseteq> slot_arcs cw"
    by auto
  then have x: "x \<in> set (variables cw)" by (simp add: slot_arcs_def)
  from revise_returns [OF wf "2.prems"(2,3) arc] obtain revised ds1 where
    rv: "revise cw ds x y = Inr (revised, ds1)" by blast
  note st1 = revise_keeps_store(1) [OF rv "2.prems"(2)]
  note nc1 = revise_keeps_store(2) [OF rv "2.prems"(3)]
  note dom1 = revise_domain_of(1) [OF rv]
  have sub1: "domain_of ds1 z = filter (\<lambda>w. w \<in> set (domain_of ds1 z)) (domain_of ds z)" for z
  proof (cases "z = x")
    case True
    have "filter (supported cw ds x y) (domain_of ds x)
        = filter (\<lambda>w. w \<in> set (filter (supported cw ds x y) (domain_of ds x))) (domain_of ds x)"
      by (rule filter_cong) auto
    with True dom1 show ?thesis by simp
  next
    case False
    with dom1 show ?thesis by (simp add: filter_id_conv)
  qed
  show ?case
  proof (cases revised)
    case False
    with revise_domain_of(5) [OF rv] have same: "ds1 = ds" by simp
    from "2.IH"(2) [OF rv refl False wf st1 nc1 queue] rv False same
    show ?thesis by simp
  next
    case True
    from revise_domain_of(4) [OF rv True] have look: "map_of ds1 x = Some (domain_of ds1 x)" .
    from revise_domain_of(2) [OF rv] True have was: "domain_of ds x \<noteq> []" by auto
    show ?thesis
    proof (cases "domain_of ds1 x = []")
      case empty: True
      with rv True look have "ac3_loop cw ((x, y) # queue) ds = Inr (False, ds1)" by simp
      with st1 nc1 sub1 x was empty show ?thesis by auto
    next
      case nonempty: False
      let ?queue = "queue @ map (\<lambda>z. (z, x)) (filter (\<lambda>z. z \<noteq> y) (neighbors cw x))"
      from queue requeue_arcs [OF wf x, of y] have q': "set ?queue \<subseteq> slot_arcs cw" by auto
      from nonempty have len: "length (domain_of ds1 x) \<noteq> 0" by simp
      from "2.IH"(1) [OF rv refl True look len wf st1 nc1 q']
      obtain b ds' where
        run: "ac3_loop cw ?queue ds1 = Inr (b, ds')" and
        st: "store_of cw ds'" and nc: "node_consistent ds'" and
        sub: "\<forall>z. domain_of ds' z = filter (\<lambda>w. w \<in> set (domain_of ds' z)) (domain_of ds1 z)" and
        tt: "b \<longrightarrow> (\<forall>z. domain_of ds1 z \<noteq> [] \<longrightarrow> domain_of ds' z \<noteq> [])" and
        ff: "\<not> b \<longrightarrow> (\<exists>z\<in>set (variables cw). domain_of ds1 z \<noteq> [] \<and> domain_of ds' z = [])"
        by blast
      from rv True look nonempty run
      have res: "ac3_loop cw ((x, y) # queue) ds = Inr (b, ds')" by simp
      have sub': "domain_of ds' z = filter (\<lambda>w. w \<in> set (domain_of ds' z)) (domain_of ds z)" for z
      proof -
        have "set (domain_of ds' z) \<subseteq> set (domain_of ds1 z)"
          using sub [rule_format, of z] by (metis filter_is_subset)
        then have "filter (\<lambda>w. w \<in> set (domain_of ds' z)) (domain_of ds z)
            = filter (\<lambda>w. w \<in> set (domain_of ds' z)) (filter (\<lambda>w. w \<in> set (domain_of ds1 z)) (domain_of ds z))"
          by (auto intro: filter_cong)
        with sub [rule_format, of z] sub1 [of z] show ?thesis by simp
      qed
      have tt': "\<forall>z. domain_of ds z \<noteq> [] \<longrightarrow> domain_of ds' z \<noteq> []" if b
      proof (intro allI impI)
        fix z assume "domain_of ds z \<noteq> []"
        with nonempty dom1 have "domain_of ds1 z \<noteq> []" by (cases "z = x") auto
        with tt that show "domain_of ds' z \<noteq> []" by simp
      qed
      have ff': "\<exists>z\<in>set (variables cw). domain_of ds z \<noteq> [] \<and> domain_of ds' z = []" if "\<not> b"
      proof -
        from ff that obtain z where z: "z \<in> set (variables cw)" "domain_of ds1 z \<noteq> []"
          "domain_of ds' z = []" by auto
        from z(2) sub1 [of z] have "domain_of ds z \<noteq> []" by auto
        with z show ?thesis by auto
      qed
      from res st nc sub' tt' ff' show ?thesis by auto
    qed
  qed
qed

subsection \<open>Propagation keeps every arc-closed family\<close>

lemma supported_closed:
  assumes "arc_closed cw E" "(x, y) \<in> slot_arcs cw" "E y \<subseteq> set (domain_of ds y)" "v \<in> E x"
  shows "supported cw ds x y v"
proof (cases "\<exists>a b. overlaps cw (x, y) = Some (Some (a, b))")
  case True
  then obtain a b where ov: "overlaps cw (x, y) = Some (Some (a, b))" by blast
  with assms(1,2,4) obtain w where "w \<in> E y" "supports a b v w"
    unfolding arc_closed_def slot_arcs_def by blast
  with assms(3) ov show ?thesis by (auto simp: supported_def)
next
  case False
  then show ?thesis by (auto simp: supported_def split: option.splits)
qed

text \<open>
  A revision removes no word of a family that is closed under the arcs and lies
  inside the store, so the whole propagation keeps the family inside the store.
\<close>

lemma ac3_loop_keeps_closed:
  "wf_crossword cw \<Longrightarrow> arc_closed cw E \<Longrightarrow> set queue \<subseteq> slot_arcs cw \<Longrightarrow>
   \<forall>x\<in>set (variables cw). E x \<subseteq> set (domain_of ds x) \<Longrightarrow>
   ac3_loop cw queue ds = Inr (b, ds') \<Longrightarrow>
   \<forall>x\<in>set (variables cw). E x \<subseteq> set (domain_of ds' x)"
proof (induction cw queue ds rule: ac3_loop.induct)
  case (1 cw ds)
  then show ?case by simp
next
  case (2 cw x y queue ds)
  note wf = "2.prems"(1) and closed = "2.prems"(2) and inside = "2.prems"(4)
  from "2.prems"(3) have arc: "(x, y) \<in> slot_arcs cw" and queue: "set queue \<subseteq> slot_arcs cw"
    by auto
  then have x: "x \<in> set (variables cw)" and y: "y \<in> set (variables cw)"
    by (auto simp: slot_arcs_def)
  from "2.prems"(5) obtain revised ds1 where rv: "revise cw ds x y = Inr (revised, ds1)"
    by (cases "revise cw ds x y") auto
  note dom1 = revise_domain_of(1) [OF rv]
  have inside1: "\<forall>z\<in>set (variables cw). E z \<subseteq> set (domain_of ds1 z)"
  proof (intro ballI subsetI)
    fix z v assume z: "z \<in> set (variables cw)" and v: "v \<in> E z"
    show "v \<in> set (domain_of ds1 z)"
    proof (cases "z = x")
      case False
      with dom1 inside z v show ?thesis by auto
    next
      case True
      from inside y have "E y \<subseteq> set (domain_of ds y)" by simp
      from supported_closed [OF closed arc this] v True
      have "supported cw ds x y v" by simp
      moreover from inside x v True have "v \<in> set (domain_of ds x)" by auto
      ultimately show ?thesis using dom1 True by simp
    qed
  qed
  show ?case
  proof (cases revised)
    case False
    with rv "2.prems"(5) have "ac3_loop cw queue ds1 = Inr (b, ds')" by simp
    from "2.IH"(2) [OF rv refl False wf closed queue inside1 this] show ?thesis .
  next
    case True
    from revise_domain_of(4) [OF rv True] have look: "map_of ds1 x = Some (domain_of ds1 x)" .
    show ?thesis
    proof (cases "domain_of ds1 x = []")
      case True
      with rv \<open>revised\<close> look "2.prems"(5) have "ds' = ds1" by simp
      with inside1 show ?thesis by simp
    next
      case False
      let ?queue = "queue @ map (\<lambda>z. (z, x)) (filter (\<lambda>z. z \<noteq> y) (neighbors cw x))"
      from queue requeue_arcs [OF wf x, of y] have q': "set ?queue \<subseteq> slot_arcs cw" by auto
      from False have len: "length (domain_of ds1 x) \<noteq> 0" by simp
      from rv True look False "2.prems"(5) have "ac3_loop cw ?queue ds1 = Inr (b, ds')" by simp
      from "2.IH"(1) [OF rv refl True look len wf closed q' inside1 this] show ?thesis .
    qed
  qed
qed

subsection \<open>A True return leaves an arc-consistent store\<close>

lemma supports_sym: "supports a b v w \<longleftrightarrow> supports b a w v"
  by (auto simp: supports_def)

lemma overlaps_sym:
  assumes "wf_crossword cw" "(u, x) \<in> slot_arcs cw" "overlaps cw (u, x) = Some (Some (p, q))"
  shows "overlaps cw (x, u) = Some (Some (q, p))"
proof -
  from assms(2) have "u \<in> set (variables cw)" "x \<in> set (variables cw)" "u \<noteq> x"
    by (auto simp: slot_arcs_def)
  with assms(1) have "case overlaps cw (u, x) of None \<Rightarrow> False
      | Some None \<Rightarrow> overlaps cw (x, u) = Some None
      | Some (Some (a, b)) \<Rightarrow> a < var_length u \<and> b < var_length x \<and> overlaps cw (x, u) = Some (Some (b, a))"
    unfolding wf_crossword_def by blast
  with assms(3) show ?thesis by simp
qed

lemma supported_cong:
  "domain_of ds1 y = domain_of ds y \<Longrightarrow> supported cw ds1 x y v = supported cw ds x y v"
  by (auto simp: supported_def split: option.splits)

text \<open>
  The invariant of the loop, \<open>settled\<close>: an arc that is not in the queue is consistent.
  One iteration keeps it. The arc \<open>(y, x)\<close> is not put back in the queue when \<open>x\<close> loses
  words, and need not be: a word of \<open>x\<close> that supported a word of \<open>y\<close> is itself
  supported by that word, because the overlap table is symmetric.
\<close>

lemma revise_settled:
  assumes wf: "wf_crossword cw" and arc: "(x, y) \<in> slot_arcs cw"
    and rv: "revise cw ds x y = Inr (revised, ds1)"
    and inv: "settled cw ((x, y) # queue) ds"
  shows "settled cw
    (if revised then queue @ map (\<lambda>z. (z, x)) (filter (\<lambda>z. z \<noteq> y) (neighbors cw x)) else queue) ds1"
  unfolding settled_def
proof (intro ballI, clarify)
  fix u v w
  assume uv: "(u, v) \<in> slot_arcs cw"
    and notq: "(u, v) \<notin> set (if revised then queue @ map (\<lambda>z. (z, x)) (filter (\<lambda>z. z \<noteq> y) (neighbors cw x)) else queue)"
    and w: "w \<in> set (domain_of ds1 u)"
  note dom1 = revise_domain_of(1) [OF rv]
  from arc have x: "x \<in> set (variables cw)" and ne: "x \<noteq> y" by (auto simp: slot_arcs_def)
  from ne dom1 have domy: "domain_of ds1 y = domain_of ds y" by simp
  from dom1 have sub: "set (domain_of ds1 z) \<subseteq> set (domain_of ds z)" for z by auto
  from notq have notq': "(u, v) \<notin> set queue" by (auto split: if_splits)
  show "supported cw ds1 u v w"
  proof (cases "(u, v) = (x, y)")
    case True
    with w dom1 have "supported cw ds x y w" by simp
    with True supported_cong [OF domy] show ?thesis by simp
  next
    case False
    with inv uv notq' have old: "\<forall>w\<in>set (domain_of ds u). supported cw ds u v w"
      unfolding settled_def by auto
    with w sub have sw: "supported cw ds u v w" by auto
    show ?thesis
    proof (cases "v = x")
      case False
      with dom1 have "domain_of ds1 v = domain_of ds v" by simp
      from supported_cong [OF this] sw show ?thesis by simp
    next
      case vx: True
      show ?thesis
      proof (cases "\<exists>p q. overlaps cw (u, x) = Some (Some (p, q))")
        case False
        with vx show ?thesis by (auto simp: supported_def split: option.splits)
      next
        case True
        then obtain p q where ov: "overlaps cw (u, x) = Some (Some (p, q))" by blast
        from uv vx have ux: "(u, x) \<in> slot_arcs cw" by simp
        then have "u \<in> set (variables cw)" "u \<noteq> x" by (auto simp: slot_arcs_def)
        with ov neighbors_iff [OF wf x, of u] have nb: "u \<in> set (neighbors cw x)" by auto
        show ?thesis
        proof (cases revised)
          case False
          with revise_domain_of(5) [OF rv] sw show ?thesis by simp
        next
          case True
          with notq nb vx have "u = y" by auto
          from sw vx ov obtain v0 where v0: "v0 \<in> set (domain_of ds x)" "supports p q w v0"
            by (auto simp: supported_def)
          from overlaps_sym [OF wf ux ov] \<open>u = y\<close>
          have ov': "overlaps cw (x, y) = Some (Some (q, p))" by simp
          from w sub \<open>u = y\<close> have "w \<in> set (domain_of ds y)" by auto
          moreover from v0(2) have "supports q p v0 w" by (simp add: supports_sym [of p q w v0])
          ultimately have "supported cw ds x y v0"
            using ov' by (auto simp: supported_def)
          with v0(1) dom1 have "v0 \<in> set (domain_of ds1 x)" by simp
          with v0(2) ov vx show ?thesis by (auto simp: supported_def)
        qed
      qed
    qed
  qed
qed

lemma settled_empty_queue:
  assumes "settled cw [] ds"
  shows "arc_consistent cw ds"
  unfolding arc_consistent_def arc_closed_def
proof (intro ballI impI allI)
  fix x y a b v
  assume "x \<in> set (variables cw)" "y \<in> set (variables cw)" "x \<noteq> y"
    and ov: "overlaps cw (x, y) = Some (Some (a, b))" and v: "v \<in> set (domain_of ds x)"
  then have "(x, y) \<in> slot_arcs cw" by (simp add: slot_arcs_def)
  with assms v have "supported cw ds x y v" unfolding settled_def by auto
  with ov show "\<exists>w\<in>set (domain_of ds y). supports a b v w" by (simp add: supported_def)
qed

lemma ac3_loop_consistent:
  "wf_crossword cw \<Longrightarrow> set queue \<subseteq> slot_arcs cw \<Longrightarrow> settled cw queue ds \<Longrightarrow>
   ac3_loop cw queue ds = Inr (True, ds') \<Longrightarrow> arc_consistent cw ds'"
proof (induction cw queue ds rule: ac3_loop.induct)
  case (1 cw ds)
  then show ?case by (simp add: settled_empty_queue)
next
  case (2 cw x y queue ds)
  note wf = "2.prems"(1)
  from "2.prems"(2) have arc: "(x, y) \<in> slot_arcs cw" and queue: "set queue \<subseteq> slot_arcs cw"
    by auto
  then have x: "x \<in> set (variables cw)" by (auto simp: slot_arcs_def)
  from "2.prems"(4) obtain revised ds1 where rv: "revise cw ds x y = Inr (revised, ds1)"
    by (cases "revise cw ds x y") auto
  note inv1 = revise_settled [OF wf arc rv "2.prems"(3)]
  show ?case
  proof (cases revised)
    case False
    with rv "2.prems"(4) have run: "ac3_loop cw queue ds1 = Inr (True, ds')" by simp
    from inv1 False have "settled cw queue ds1" by simp
    from "2.IH"(2) [OF rv refl False wf queue this run] show ?thesis .
  next
    case True
    from revise_domain_of(4) [OF rv True] have look: "map_of ds1 x = Some (domain_of ds1 x)" .
    let ?queue = "queue @ map (\<lambda>z. (z, x)) (filter (\<lambda>z. z \<noteq> y) (neighbors cw x))"
    from rv True look "2.prems"(4) have nonempty: "domain_of ds1 x \<noteq> []"
      by (auto split: if_splits)
    with rv True look "2.prems"(4) have run: "ac3_loop cw ?queue ds1 = Inr (True, ds')" by simp
    from queue requeue_arcs [OF wf x, of y] have q': "set ?queue \<subseteq> slot_arcs cw" by auto
    from nonempty have len: "length (domain_of ds1 x) \<noteq> 0" by simp
    from inv1 True have "settled cw ?queue ds1" by simp
    from "2.IH"(1) [OF rv refl True look len wf q' this run] show ?thesis .
  qed
qed

lemma settled_initial_queue:
  assumes "wf_crossword cw"
  shows "settled cw (initial_queue cw) ds"
  unfolding settled_def
proof (intro ballI, clarify)
  fix u v w
  assume uv: "(u, v) \<in> slot_arcs cw" and notq: "(u, v) \<notin> set (initial_queue cw)"
  then have u: "u \<in> set (variables cw)" and v: "v \<in> set (variables cw)" and ne: "u \<noteq> v"
    by (auto simp: slot_arcs_def)
  from notq u have "v \<notin> set (neighbors cw u)" by (auto simp: initial_queue_def)
  with neighbors_iff [OF assms u, of v] v ne
  have none: "\<not> (\<exists>ab. overlaps cw (v, u) = Some (Some ab))" by auto
  have "\<not> (\<exists>p q. overlaps cw (u, v) = Some (Some (p, q)))"
  proof
    assume "\<exists>p q. overlaps cw (u, v) = Some (Some (p, q))"
    then obtain p q where "overlaps cw (u, v) = Some (Some (p, q))" by blast
    from overlaps_sym [OF assms uv this] none show False by simp
  qed
  then show "supported cw ds u v w" by (auto simp: supported_def split: option.splits)
qed

subsection \<open>The order of the initial queue\<close>

lemma alist_eqI:
  "map fst xs = map fst ys \<Longrightarrow> distinct (map fst xs) \<Longrightarrow>
   \<forall>k\<in>set (map fst xs). map_of xs k = map_of ys k \<Longrightarrow> xs = ys"
proof (induction xs arbitrary: ys)
  case Nil
  then show ?case by simp
next
  case (Cons x xs)
  from Cons.prems(1) obtain y ys' where ys: "ys = y # ys'" "fst x = fst y" "map fst xs = map fst ys'"
    by (cases ys) auto
  from Cons.prems(3) ys have "snd x = snd y" by (cases x; cases y) auto
  with ys have xy: "x = y" by (simp add: prod_eq_iff)
  have "\<forall>k\<in>set (map fst xs). map_of xs k = map_of ys' k"
  proof
    fix k assume k: "k \<in> set (map fst xs)"
    with Cons.prems(2) have "k \<noteq> fst x" by force
    with Cons.prems(3) k ys xy show "map_of xs k = map_of ys' k"
      by (cases x) (auto split: if_splits)
  qed
  with Cons.IH [OF ys(3)] Cons.prems(2) have "xs = ys'" by simp
  with xy ys show ?case by simp
qed

lemma settled_set_cong: "set q = set q' \<Longrightarrow> settled cw q ds = settled cw q' ds"
  by (simp add: settled_def)

lemma ac3_some_queue:
  assumes "set q = set (initial_queue cw)"
  shows "\<exists>q'. ac3 cw ds (Some q) = ac3_loop cw q' ds \<and> set q' = set (initial_queue cw)"
proof (cases q)
  case Nil
  then have "ac3 cw ds (Some q) = ac3_loop cw (initial_queue cw) ds" by (simp add: ac3_def)
  then show ?thesis by blast
next
  case (Cons arc rest)
  then have "ac3 cw ds (Some q) = ac3_loop cw q ds" by (simp add: ac3_def)
  with assms show ?thesis by blast
qed

text \<open>
  A run on a queue holding exactly the arcs of the initial queue: the store it leaves
  contains every arc-closed family the old one contained, and a True return leaves an
  arc-consistent store.
\<close>

lemma ac3_loop_full_closed:
  assumes wf: "wf_crossword cw" and q: "set q = set (initial_queue cw)"
    and run: "ac3_loop cw q ds = Inr (b, ds')"
    and closed: "arc_closed cw E" and inside: "\<forall>x\<in>set (variables cw). E x \<subseteq> set (domain_of ds x)"
  shows "\<forall>x\<in>set (variables cw). E x \<subseteq> set (domain_of ds' x)"
proof -
  from q initial_queue_arcs [OF wf] have arcs: "set q \<subseteq> slot_arcs cw" by simp
  from ac3_loop_keeps_closed [OF wf closed arcs inside run] show ?thesis .
qed

lemma ac3_loop_full_consistent:
  assumes wf: "wf_crossword cw" and q: "set q = set (initial_queue cw)"
    and run: "ac3_loop cw q ds = Inr (True, ds')"
  shows "arc_consistent cw ds'"
proof -
  from q initial_queue_arcs [OF wf] have arcs: "set q \<subseteq> slot_arcs cw" by simp
  from settled_initial_queue [OF wf] settled_set_cong [OF q] have "settled cw q ds" by simp
  from ac3_loop_consistent [OF wf arcs this run] show ?thesis .
qed

text \<open>
  C5 (amended). On a well-formed grid and a node-consistent store keyed by the slots,
  take any two lists that hold exactly the arcs of the initial queue (any two
  orderings of it among them). \<open>ac3\<close> returns normally on both with the same boolean,
  and when the boolean is True the two final stores are identical.
\<close>

theorem ac3_queue_order:
  assumes wf: "wf_crossword cw" and st: "store_of cw ds" and nc: "node_consistent ds"
    and q1: "set q1 = set (initial_queue cw)" and q2: "set q2 = set (initial_queue cw)"
  shows "\<exists>b ds1 ds2. ac3 cw ds (Some q1) = Inr (b, ds1) \<and> ac3 cw ds (Some q2) = Inr (b, ds2)
           \<and> (b \<longrightarrow> ds1 = ds2)"
proof -
  from ac3_some_queue [OF q1] obtain p1 where
    p1: "ac3 cw ds (Some q1) = ac3_loop cw p1 ds" "set p1 = set (initial_queue cw)" by blast
  from ac3_some_queue [OF q2] obtain p2 where
    p2: "ac3 cw ds (Some q2) = ac3_loop cw p2 ds" "set p2 = set (initial_queue cw)" by blast
  from p1(2) initial_queue_arcs [OF wf] have arcs1: "set p1 \<subseteq> slot_arcs cw" by simp
  from p2(2) initial_queue_arcs [OF wf] have arcs2: "set p2 \<subseteq> slot_arcs cw" by simp
  from ac3_loop_returns [OF wf st nc arcs1] obtain b1 d1 where
    run1: "ac3_loop cw p1 ds = Inr (b1, d1)" and st1: "store_of cw d1" and
    sub1: "\<forall>x. domain_of d1 x = filter (\<lambda>w. w \<in> set (domain_of d1 x)) (domain_of ds x)" and
    tt1: "b1 \<longrightarrow> (\<forall>x. domain_of ds x \<noteq> [] \<longrightarrow> domain_of d1 x \<noteq> [])" and
    ff1: "\<not> b1 \<longrightarrow> (\<exists>x\<in>set (variables cw). domain_of ds x \<noteq> [] \<and> domain_of d1 x = [])"
    by blast
  from ac3_loop_returns [OF wf st nc arcs2] obtain b2 d2 where
    run2: "ac3_loop cw p2 ds = Inr (b2, d2)" and st2: "store_of cw d2" and
    sub2: "\<forall>x. domain_of d2 x = filter (\<lambda>w. w \<in> set (domain_of d2 x)) (domain_of ds x)" and
    tt2: "b2 \<longrightarrow> (\<forall>x. domain_of ds x \<noteq> [] \<longrightarrow> domain_of d2 x \<noteq> [])" and
    ff2: "\<not> b2 \<longrightarrow> (\<exists>x\<in>set (variables cw). domain_of ds x \<noteq> [] \<and> domain_of d2 x = [])"
    by blast
  have inside1: "set (domain_of d1 x) \<subseteq> set (domain_of ds x)" for x
    using sub1 [rule_format, of x] by (metis filter_is_subset)
  have inside2: "set (domain_of d2 x) \<subseteq> set (domain_of ds x)" for x
    using sub2 [rule_format, of x] by (metis filter_is_subset)
  have le12: "\<forall>x\<in>set (variables cw). set (domain_of d1 x) \<subseteq> set (domain_of d2 x)" if b1
  proof -
    from run1 that have "ac3_loop cw p1 ds = Inr (True, d1)" by simp
    from ac3_loop_full_consistent [OF wf p1(2) this]
    have "arc_closed cw (\<lambda>x. set (domain_of d1 x))" by (simp add: arc_consistent_def)
    from ac3_loop_full_closed [OF wf p2(2) run2 this] inside1 show ?thesis by simp
  qed
  have le21: "\<forall>x\<in>set (variables cw). set (domain_of d2 x) \<subseteq> set (domain_of d1 x)" if b2
  proof -
    from run2 that have "ac3_loop cw p2 ds = Inr (True, d2)" by simp
    from ac3_loop_full_consistent [OF wf p2(2) this]
    have "arc_closed cw (\<lambda>x. set (domain_of d2 x))" by (simp add: arc_consistent_def)
    from ac3_loop_full_closed [OF wf p1(2) run1 this] inside2 show ?thesis by simp
  qed
  have same: "b1 = b2"
  proof (rule ccontr)
    assume "b1 \<noteq> b2"
    then consider "b1" "\<not> b2" | "b2" "\<not> b1" by auto
    then show False
    proof cases
      case 1
      with ff2 obtain x where x: "x \<in> set (variables cw)" "domain_of ds x \<noteq> []" "domain_of d2 x = []"
        by auto
      with le12 [OF 1(1)] have "domain_of d1 x = []" by auto
      with tt1 1(1) x(2) show False by simp
    next
      case 2
      with ff1 obtain x where x: "x \<in> set (variables cw)" "domain_of ds x \<noteq> []" "domain_of d1 x = []"
        by auto
      with le21 [OF 2(1)] have "domain_of d2 x = []" by auto
      with tt2 2(1) x(2) show False by simp
    qed
  qed
  have "d1 = d2" if b1
  proof (rule alist_eqI)
    from st1 st2 show "map fst d1 = map fst d2" by (simp add: store_of_def)
    from wf st1 show "distinct (map fst d1)" by (simp add: store_of_def wf_crossword_def)
    show "\<forall>k\<in>set (map fst d1). map_of d1 k = map_of d2 k"
    proof
      fix k assume "k \<in> set (map fst d1)"
      with st1 have k: "k \<in> set (variables cw)" by (simp add: store_of_def)
      from that same have b2 by simp
      from le12 [OF that] le21 [OF this] k
      have "set (domain_of d1 k) = set (domain_of d2 k)" by auto
      with sub1 [rule_format, of k] sub2 [rule_format, of k]
      have "domain_of d1 k = domain_of d2 k" by simp
      with store_of_lookup [OF st1 k] store_of_lookup [OF st2 k]
      show "map_of d1 k = map_of d2 k" by simp
    qed
  qed
  with p1 p2 run1 run2 same show ?thesis by auto
qed

lemma initial_queue_crossing:
  "initial_queue crossing = [(slot_across, slot_down), (slot_down, slot_across)]"
  by (simp add: initial_queue_def crossing_def crossing_neighbors_def slot_across_def slot_down_def)

theorem ac3_queue_order_witness:
  "wf_crossword crossing
   \<and> store_of crossing [(slot_across, [''CAT'', ''ART'', ''DOG'']), (slot_down, [''CAT'', ''ART'', ''DOG''])]
   \<and> node_consistent [(slot_across, [''CAT'', ''ART'', ''DOG'']), (slot_down, [''CAT'', ''ART'', ''DOG''])]
   \<and> set [(slot_across, slot_down), (slot_down, slot_across)] = set (initial_queue crossing)
   \<and> set [(slot_down, slot_across), (slot_across, slot_down)] = set (initial_queue crossing)
   \<and> (\<exists>b ds1 ds2.
        ac3 crossing [(slot_across, [''CAT'', ''ART'', ''DOG'']), (slot_down, [''CAT'', ''ART'', ''DOG''])]
          (Some [(slot_across, slot_down), (slot_down, slot_across)]) = Inr (b, ds1)
      \<and> ac3 crossing [(slot_across, [''CAT'', ''ART'', ''DOG'']), (slot_down, [''CAT'', ''ART'', ''DOG''])]
          (Some [(slot_down, slot_across), (slot_across, slot_down)]) = Inr (b, ds2)
      \<and> (b \<longrightarrow> ds1 = ds2))"
proof -
  let ?ds = "[(slot_across, [''CAT'', ''ART'', ''DOG'']), (slot_down, [''CAT'', ''ART'', ''DOG''])]"
  have st: "store_of crossing ?ds" by (simp add: store_of_def crossing_def)
  have nc: "node_consistent ?ds" by (simp add: node_consistent_def slot_across_def slot_down_def)
  have q1: "set [(slot_across, slot_down), (slot_down, slot_across)] = set (initial_queue crossing)"
    by (simp add: initial_queue_crossing)
  have q2: "set [(slot_down, slot_across), (slot_across, slot_down)] = set (initial_queue crossing)"
    by (auto simp: initial_queue_crossing)
  from ac3_queue_order [OF wf_crossing st nc q1 q2] wf_crossing st nc q1 q2
  show ?thesis by blast
qed

text \<open>
  C5 as stated fails on a False return: \<open>ac3\<close> returns as soon as one domain is empty,
  and which domain that is depends on the order of the queue. With the slots of
  length 2 and 3 sharing their first cell and the words AB and CDE, the initial queue
  in one order empties the domain of the first slot and leaves the second untouched;
  in the other order it is the reverse.
\<close>

theorem ac3_queue_order_counterexample:
  "enforce_node_consistency mismatch (CrosswordCreator mismatch)
     = Inr [(slot_two, [''AB'']), (slot_three, [''CDE''])]
   \<and> initial_queue mismatch = [(slot_two, slot_three), (slot_three, slot_two)]
   \<and> ac3 mismatch [(slot_two, [''AB'']), (slot_three, [''CDE''])]
        (Some [(slot_two, slot_three), (slot_three, slot_two)])
     = Inr (False, [(slot_two, []), (slot_three, [''CDE''])])
   \<and> ac3 mismatch [(slot_two, [''AB'']), (slot_three, [''CDE''])]
        (Some [(slot_three, slot_two), (slot_two, slot_three)])
     = Inr (False, [(slot_two, [''AB'']), (slot_three, [])])
   \<and> [(slot_two, []), (slot_three, [''CDE''])] \<noteq> [(slot_two, [''AB'']), (slot_three, [])]"
  by (simp add: enforce_node_consistency_def CrosswordCreator_def mismatch_def
      mismatch_overlaps_def mismatch_neighbors_def slot_two_def slot_three_def set_remove_def
      ac3_def initial_queue_def revise_def)

subsection \<open>The arcs given to ac3\<close>

lemma set_initial_queue:
  "set (initial_queue cw) = {(x, y). x \<in> set (variables cw) \<and> y \<in> set (neighbors cw x)}"
  by (auto simp: initial_queue_def)

text \<open>
  A store in which some word has no support is changed by the propagation over the
  full queue: a True return leaves an arc-consistent store, a False return a store
  with a domain that went empty.
\<close>

lemma ac3_loop_full_works:
  assumes wf: "wf_crossword cw" and st: "store_of cw ds" and nc: "node_consistent ds"
  shows "\<exists>b ds'. ac3_loop cw (initial_queue cw) ds = Inr (b, ds')
           \<and> (b \<longrightarrow> arc_consistent cw ds') \<and> (\<not> arc_consistent cw ds \<longrightarrow> ds' \<noteq> ds)"
proof -
  from ac3_loop_returns [OF wf st nc initial_queue_arcs [OF wf]] obtain b ds' where
    run: "ac3_loop cw (initial_queue cw) ds = Inr (b, ds')" and
    ff: "\<not> b \<longrightarrow> (\<exists>x\<in>set (variables cw). domain_of ds x \<noteq> [] \<and> domain_of ds' x = [])"
    by blast
  have tt: "arc_consistent cw ds'" if b
  proof -
    from run that have "ac3_loop cw (initial_queue cw) ds = Inr (True, ds')" by simp
    from ac3_loop_full_consistent [OF wf refl this] show ?thesis .
  qed
  have "ds' \<noteq> ds" if "\<not> arc_consistent cw ds"
  proof (cases b)
    case True
    with tt that show ?thesis by auto
  next
    case False
    with ff obtain x where "domain_of ds x \<noteq> []" "domain_of ds' x = []" by auto
    then show ?thesis by auto
  qed
  with run tt show ?thesis by blast
qed

text \<open>
  C9. \<open>ac3([])\<close> is \<open>ac3()\<close>: the guard \<open>if not arcs\<close> replaces an explicitly empty arc
  list by the initial queue, which holds every ordered pair of a slot and one of its
  neighbours, and the loop runs on that queue. So on a well-formed grid and a
  node-consistent store keyed by the slots, \<open>ac3([])\<close> propagates in full: a True return
  leaves an arc-consistent store, and a store that was not arc consistent is not
  returned unchanged.
\<close>

theorem ac3_empty_arcs:
  "ac3 cw ds (Some []) = ac3 cw ds None
   \<and> ac3 cw ds (Some []) = ac3_loop cw (initial_queue cw) ds
   \<and> set (initial_queue cw) = {(x, y). x \<in> set (variables cw) \<and> y \<in> set (neighbors cw x)}
   \<and> (wf_crossword cw \<and> store_of cw ds \<and> node_consistent ds \<longrightarrow>
        (\<exists>b ds'. ac3 cw ds (Some []) = Inr (b, ds')
           \<and> (b \<longrightarrow> arc_consistent cw ds') \<and> (\<not> arc_consistent cw ds \<longrightarrow> ds' \<noteq> ds)))"
proof (intro conjI impI)
  show full: "ac3 cw ds (Some []) = ac3_loop cw (initial_queue cw) ds" by (simp add: ac3_def)
  show "ac3 cw ds (Some []) = ac3 cw ds None" by (simp add: ac3_def)
  show "set (initial_queue cw) = {(x, y). x \<in> set (variables cw) \<and> y \<in> set (neighbors cw x)}"
    by (rule set_initial_queue)
  assume "wf_crossword cw \<and> store_of cw ds \<and> node_consistent ds"
  then have "wf_crossword cw" "store_of cw ds" "node_consistent ds" by simp_all
  from ac3_loop_full_works [OF this]
  show "\<exists>b ds'. ac3 cw ds (Some []) = Inr (b, ds')
           \<and> (b \<longrightarrow> arc_consistent cw ds') \<and> (\<not> arc_consistent cw ds \<longrightarrow> ds' \<noteq> ds)"
    unfolding full .
qed

text \<open>
  On the two crossing slots with the full word list in both domains the store is not
  arc consistent (ART of the ACROSS slot has no support), and the call with the empty
  list prunes both domains; a loop over an empty queue returns the store as it was.
\<close>

lemma ac3_empty_arcs_example:
  "ac3 crossing [(slot_across, [''CAT'', ''ART'', ''DOG'']), (slot_down, [''CAT'', ''ART'', ''DOG''])] (Some [])
     = Inr (True, [(slot_across, [''CAT'']), (slot_down, [''ART''])])
   \<and> ac3_loop crossing [] [(slot_across, [''CAT'', ''ART'', ''DOG'']), (slot_down, [''CAT'', ''ART'', ''DOG''])]
     = Inr (True, [(slot_across, [''CAT'', ''ART'', ''DOG'']), (slot_down, [''CAT'', ''ART'', ''DOG''])])"
  by (simp add: ac3_def initial_queue_def revise_def crossing_def crossing_overlaps_def
      crossing_neighbors_def slot_across_def slot_down_def)

lemma crossing_full_not_arc_consistent:
  "\<not> arc_consistent crossing
      [(slot_across, [''CAT'', ''ART'', ''DOG'']), (slot_down, [''CAT'', ''ART'', ''DOG''])]"
proof
  let ?ds = "[(slot_across, [''CAT'', ''ART'', ''DOG'']), (slot_down, [''CAT'', ''ART'', ''DOG''])]"
  assume "arc_consistent crossing ?ds"
  then have "arc_closed crossing (\<lambda>x. set (domain_of ?ds x))" by (simp add: arc_consistent_def)
  moreover have "slot_across \<in> set (variables crossing)" "slot_down \<in> set (variables crossing)"
    "slot_across \<noteq> slot_down" "overlaps crossing (slot_across, slot_down) = Some (Some (1, 0))"
    "''ART'' \<in> set (domain_of ?ds slot_across)"
    by (simp_all add: crossing_def crossing_overlaps_def slot_across_def slot_down_def domain_of_def)
  ultimately have "\<exists>w\<in>set (domain_of ?ds slot_down). supports 1 0 ''ART'' w"
    unfolding arc_closed_def by blast
  then show False
    by (simp add: domain_of_def supports_def slot_across_def slot_down_def)
qed

theorem ac3_empty_arcs_witness:
  "wf_crossword crossing
   \<and> store_of crossing [(slot_across, [''CAT'', ''ART'', ''DOG'']), (slot_down, [''CAT'', ''ART'', ''DOG''])]
   \<and> node_consistent [(slot_across, [''CAT'', ''ART'', ''DOG'']), (slot_down, [''CAT'', ''ART'', ''DOG''])]
   \<and> \<not> arc_consistent crossing
        [(slot_across, [''CAT'', ''ART'', ''DOG'']), (slot_down, [''CAT'', ''ART'', ''DOG''])]
   \<and> set (initial_queue crossing) = {(slot_across, slot_down), (slot_down, slot_across)}
   \<and> ac3 crossing [(slot_across, [''CAT'', ''ART'', ''DOG'']), (slot_down, [''CAT'', ''ART'', ''DOG''])] (Some [])
       = Inr (True, [(slot_across, [''CAT'']), (slot_down, [''ART''])])
   \<and> arc_consistent crossing [(slot_across, [''CAT'']), (slot_down, [''ART''])]
   \<and> [(slot_across, [''CAT'']), (slot_down, [''ART''])]
       \<noteq> [(slot_across, [''CAT'', ''ART'', ''DOG'']), (slot_down, [''CAT'', ''ART'', ''DOG''])]"
proof -
  let ?ds = "[(slot_across, [''CAT'', ''ART'', ''DOG'']), (slot_down, [''CAT'', ''ART'', ''DOG''])]"
  let ?pruned = "[(slot_across, [''CAT'']), (slot_down, [''ART''])]"
  have st: "store_of crossing ?ds" by (simp add: store_of_def crossing_def)
  have nc: "node_consistent ?ds" by (simp add: node_consistent_def slot_across_def slot_down_def)
  have run: "ac3 crossing ?ds (Some []) = Inr (True, ?pruned)"
    using ac3_empty_arcs_example by simp
  note inst = ac3_empty_arcs [of crossing ?ds]
  from inst wf_crossing st nc obtain b ds' where
    r: "ac3 crossing ?ds (Some []) = Inr (b, ds')" and
    tt: "b \<longrightarrow> arc_consistent crossing ds'" and
    ch: "\<not> arc_consistent crossing ?ds \<longrightarrow> ds' \<noteq> ?ds"
    by blast
  from r run have "b" "ds' = ?pruned" by simp_all
  with tt ch crossing_full_not_arc_consistent
  have ac: "arc_consistent crossing ?pruned" and ne: "?pruned \<noteq> ?ds" by simp_all
  have q: "set (initial_queue crossing) = {(slot_across, slot_down), (slot_down, slot_across)}"
    by (simp add: initial_queue_crossing)
  show ?thesis
    by (intro conjI) (rule wf_crossing st nc crossing_full_not_arc_consistent q run ac ne)+
qed

subsection \<open>Completeness of the search\<close>

lemma ruled_out_table_words:
  "ruled_out_table cw ds var ns d = Inr result \<Longrightarrow> map fst result = d"
  by (induction d arbitrary: result) (auto split: sum.splits)

lemma order_domain_values_set:
  assumes "order_domain_values cw ds var asg = Inr vals"
  shows "set vals = set (domain_of ds var)"
proof -
  from assms obtain d result where d: "map_of ds var = Some d"
    and t: "ruled_out_table cw ds var (unassigned_neighbors asg (neighbors cw var)) d = Inr result"
    and vals: "vals = map fst (sort_key snd result)"
    by (auto simp: order_domain_values_def Let_def split: option.splits sum.splits)
  from vals have "set vals = fst ` set result" by simp
  also have "\<dots> = set (map fst result)" by simp
  also from ruled_out_table_words [OF t] d have "\<dots> = set (domain_of ds var)"
    by (simp add: domain_of_def)
  finally show ?thesis .
qed

lemma valid_agrees_consistent:
  assumes v: "valid_assignment cw m" and a: "agrees m asg"
    and k: "fst ` set asg \<subseteq> set (variables cw)"
  shows "consistent_entries cw asg"
  unfolding consistent_entries_def
proof (intro ballI, clarify, intro conjI ballI, goal_cases)
  case (1 x word1)
  with a k have "m x = Some word1" "x \<in> set (variables cw)" by (auto simp: agrees_def)
  with v show ?case unfolding valid_assignment_def by fastforce
next
  case (2 x word1 p)
  obtain y word2 where p: "p = (y, word2)" by (cases p)
  from 2 p a k have "m x = Some word1" "x \<in> set (variables cw)"
    "m y = Some word2" "y \<in> set (variables cw)" by (auto simp: agrees_def)
  with v have "x \<noteq> y \<longrightarrow> word1 \<noteq> word2 \<and>
          (\<forall>a b. overlaps cw (x, y) = Some (Some (a, b)) \<longrightarrow>
             a < length word1 \<and> b < length word2 \<and> word1 ! a = word2 ! b)"
    unfolding valid_assignment_def by blast
  with p show ?case by simp
qed

lemma agrees_dict_update:
  assumes "agrees m asg" "m var = Some val"
  shows "agrees m (dict_update asg var val)"
  using assms set_dict_update_subset [of asg var val] by (auto simp: agrees_def)

text \<open>
  \<open>backtrack\<close> does not return \<open>None\<close> on a partial assignment that some valid complete
  assignment within the store agrees with; nor does its loop, when the word of the
  chosen slot is among the candidates still to try.
\<close>

lemma backtrack_complete:
  "backtrack cw ds asg = Inr None \<Longrightarrow> fst ` set asg \<subseteq> set (variables cw) \<Longrightarrow>
     valid_assignment cw m \<Longrightarrow> within cw m ds \<Longrightarrow> agrees m asg \<Longrightarrow> False"
  "backtrack_values cw ds asg var vals = Inr None \<Longrightarrow> fst ` set asg \<subseteq> set (variables cw) \<Longrightarrow>
     var \<in> set (variables cw) \<Longrightarrow>
     valid_assignment cw m \<Longrightarrow> within cw m ds \<Longrightarrow> agrees m asg \<Longrightarrow>
     \<exists>w\<in>set vals. m var = Some w \<Longrightarrow> False"
proof (induction cw ds asg and cw ds asg var vals rule: backtrack_backtrack_values.induct)
  case (1 cw ds asg)
  from "1.prems"(1) have nc: "\<not> assignment_complete cw asg" by (auto split: if_splits)
  with "1.prems"(1) obtain var vals where
    sel: "select_unassigned_variable cw ds asg = Inr (Some var)" and
    ord: "order_domain_values cw ds var asg = Inr vals" and
    run: "backtrack_values cw ds asg var vals = Inr None"
    by (auto split: sum.splits option.splits)
  from select_unassigned_variable_Some [OF sel] have var: "var \<in> set (variables cw)"
    by (simp add: unassigned_def)
  with "1.prems"(3) obtain w where w: "m var = Some w"
    unfolding valid_assignment_def by blast
  with "1.prems"(4) var have "w \<in> set (domain_of ds var)" by (auto simp: within_def)
  with order_domain_values_set [OF ord] w have "\<exists>w\<in>set vals. m var = Some w" by auto
  from "1.IH" [OF nc sel refl ord run "1.prems"(2) var "1.prems"(3,4,5) this] show ?case .
next
  case (2 cw ds asg var)
  then show ?case by simp
next
  case (3 cw ds asg var val vals)
  let ?new = "dict_update asg var val"
  from "3.prems"(1) obtain ok where ok: "consistent cw ?new = Inr ok"
    by (auto simp: Let_def split: sum.splits)
  have keys: "fst ` set ?new \<subseteq> set (variables cw)"
    using "3.prems"(2,3) by (simp add: dict_update_keys)
  show ?case
  proof (cases ok)
    case False
    with ok "3.prems"(1) have rest: "backtrack_values cw ds asg var vals = Inr None"
      by (simp add: Let_def)
    have "m var \<noteq> Some val"
    proof
      assume "m var = Some val"
      from valid_agrees_consistent [OF "3.prems"(4) agrees_dict_update [OF "3.prems"(6) this] keys]
        consistent_entries [OF ok] False show False by simp
    qed
    with "3.prems"(7) have "\<exists>w\<in>set vals. m var = Some w" by auto
    from "3.IH"(3) [OF refl ok False rest "3.prems"(2,3,4,5,6) this] show ?thesis .
  next
    case True
    with ok "3.prems"(1) obtain result where
      res: "backtrack cw ds ?new = Inr result" and
      fin: "(if truthy result then Inr result else backtrack_values cw ds asg var vals) = Inr None"
      by (auto simp: Let_def simp del: backtrack.simps split: sum.splits)
    have nt: "\<not> truthy result"
    proof
      assume "truthy result"
      with fin show False by (simp add: truthy_def)
    qed
    with fin have rest: "backtrack_values cw ds asg var vals = Inr None" by simp
    have "m var \<noteq> Some val"
    proof
      assume mv: "m var = Some val"
      note ag = agrees_dict_update [OF "3.prems"(6) mv]
      show False
      proof (cases result)
        case None
        from "3.IH"(1) [OF refl ok True res [unfolded None] keys "3.prems"(4,5) ag] show False .
      next
        case (Some r)
        with nt have "r = []" by (simp add: truthy_def)
        with backtrack_returns(1) [OF res [unfolded Some]] dict_update_nonempty [of asg var val]
        show False by auto
      qed
    qed
    with "3.prems"(7) have "\<exists>w\<in>set vals. m var = Some w" by auto
    from "3.IH"(2) [OF refl ok True res nt rest "3.prems"(2,3,4,5,6) this] show ?thesis .
  qed
qed

subsection \<open>Completeness of solve\<close>

lemma valid_arc_closed:
  assumes "valid_assignment cw m"
  shows "arc_closed cw (\<lambda>x. {w. m x = Some w})"
  unfolding arc_closed_def
proof (intro ballI impI allI)
  fix x y a b v
  assume xy: "x \<in> set (variables cw)" "y \<in> set (variables cw)" "x \<noteq> y"
    and ov: "overlaps cw (x, y) = Some (Some (a, b))" and v: "v \<in> {w. m x = Some w}"
  from assms xy(2) obtain w where w: "m y = Some w" unfolding valid_assignment_def by blast
  from assms xy v w ov have "v \<noteq> w \<and> a < length v \<and> b < length w \<and> v ! a = w ! b"
    unfolding valid_assignment_def by blast
  with w show "\<exists>w\<in>{w. m y = Some w}. supports a b v w"
    by (auto simp: supports_def)
qed

lemma domain_of_map:
  "x \<in> set vs \<Longrightarrow> domain_of (map (\<lambda>v. (v, f v)) vs) x = f x"
  by (induction vs) (auto simp: domain_of_def)

text \<open>The store that node consistency leaves on the fresh store.\<close>

lemma enforce_node_consistency_store:
  assumes "wf_crossword cw"
  shows "\<exists>ds1. enforce_node_consistency cw (CrosswordCreator cw) = Inr ds1
      \<and> store_of cw ds1 \<and> node_consistent ds1
      \<and> (\<forall>x\<in>set (variables cw).
            domain_of ds1 x = filter (\<lambda>w. length w = var_length x) (words cw))"
proof -
  let ?ds1 = "map (\<lambda>v. (v, filter (\<lambda>w. length w = var_length v) (words cw))) (variables cw)"
  from assms have "distinct (variables cw)" "distinct (words cw)"
    by (simp_all add: wf_crossword_def)
  then have "enforce_node_consistency cw (CrosswordCreator cw) = Inr ?ds1"
    by (rule enforce_node_consistency_init)
  moreover have "store_of cw ?ds1" by (simp add: store_of_def comp_def)
  moreover have "node_consistent ?ds1" by (simp add: node_consistent_def list_all_iff)
  moreover have "\<forall>x\<in>set (variables cw).
      domain_of ?ds1 x = filter (\<lambda>w. length w = var_length x) (words cw)"
    by (simp add: domain_of_map)
  ultimately show ?thesis by blast
qed

text \<open>
  Node consistency followed by the propagation removes no word that a valid complete
  assignment gives to a slot.
\<close>

lemma solve_keeps_valid:
  assumes wf: "wf_crossword cw"
    and run: "solve cw (CrosswordCreator cw) = Inr (result, ds')"
    and valid: "valid_assignment cw m"
  shows "within cw m ds'" and "backtrack cw ds' [] = Inr result"
proof -
  from enforce_node_consistency_store [OF wf] obtain ds1 where
    e: "enforce_node_consistency cw (CrosswordCreator cw) = Inr ds1" and
    d1: "\<forall>x\<in>set (variables cw). domain_of ds1 x = filter (\<lambda>w. length w = var_length x) (words cw)"
    by blast
  from run e obtain b where
    a: "ac3_loop cw (initial_queue cw) ds1 = Inr (b, ds')" and
    bt: "backtrack cw ds' [] = Inr result"
    by (auto simp: solve_def ac3_def simp del: backtrack.simps split: sum.splits prod.splits)
  show "backtrack cw ds' [] = Inr result" by (rule bt)
  let ?E = "\<lambda>x. {w. m x = Some w}"
  have inside: "\<forall>x\<in>set (variables cw). ?E x \<subseteq> set (domain_of ds1 x)"
  proof (intro ballI subsetI)
    fix x w assume x: "x \<in> set (variables cw)" and "w \<in> ?E x"
    then have "m x = Some w" by simp
    with valid x have "w \<in> set (words cw)" "length w = var_length x"
      unfolding valid_assignment_def by fastforce+
    with d1 x show "w \<in> set (domain_of ds1 x)" by simp
  qed
  from ac3_loop_keeps_closed [OF wf valid_arc_closed [OF valid] initial_queue_arcs [OF wf] inside a]
  show "within cw m ds'" by (auto simp: within_def)
qed

text \<open>
  C2. On a well-formed grid, when \<open>solve\<close> returns \<open>None\<close> there is no valid complete
  assignment; and whatever \<open>solve\<close> returns, every word that a valid complete
  assignment gives to a slot is still in that slot's domain in the store \<open>solve\<close>
  leaves (node consistency and \<open>revise\<close> removed none of them).
\<close>

theorem solve_complete:
  assumes "wf_crossword cw" "solve cw (CrosswordCreator cw) = Inr (result, ds')"
  shows "(result = None \<longrightarrow> \<not> (\<exists>m. valid_assignment cw m))
     \<and> (\<forall>m x w. valid_assignment cw m \<and> x \<in> set (variables cw) \<and> m x = Some w
           \<longrightarrow> w \<in> set (domain_of ds' x))"
proof (intro conjI impI allI notI)
  assume none: "result = None" and "\<exists>m. valid_assignment cw m"
  then obtain m where m: "valid_assignment cw m" by blast
  from solve_keeps_valid [OF assms m] none
  have "within cw m ds'" "backtrack cw ds' [] = Inr None" by simp_all
  from backtrack_complete(1) [OF this(2) _ m this(1)] show False by (simp add: agrees_def)
next
  fix m x w
  assume "valid_assignment cw m \<and> x \<in> set (variables cw) \<and> m x = Some w"
  with solve_keeps_valid(1) [OF assms, of m] show "w \<in> set (domain_of ds' x)"
    by (auto simp: within_def)
qed

lemma wf_unmatched: "wf_crossword unmatched"
  by (simp add: wf_crossword_def unmatched_def)

lemma solve_unmatched:
  "solve unmatched (CrosswordCreator unmatched) = Inr (None, [(slot_across, [])])"
  by (simp add: solve_def unmatched_def CrosswordCreator_def enforce_node_consistency_def
      slot_across_def set_remove_def ac3_def initial_queue_def assignment_complete_def
      select_unassigned_variable_def order_domain_values_def)

lemma valid_crossing:
  "valid_assignment crossing (map_of [(slot_across, ''CAT''), (slot_down, ''ART'')])"
  by (auto simp: valid_assignment_def crossing_def crossing_overlaps_def
      slot_across_def slot_down_def split: if_splits)

theorem solve_complete_witness:
  "wf_crossword unmatched
   \<and> solve unmatched (CrosswordCreator unmatched) = Inr (None, [(slot_across, [])])
   \<and> \<not> (\<exists>m. valid_assignment unmatched m)
   \<and> wf_crossword crossing
   \<and> solve crossing (CrosswordCreator crossing) =
       Inr (Some [(slot_across, ''CAT''), (slot_down, ''ART'')],
            [(slot_across, [''CAT'']), (slot_down, [''ART''])])
   \<and> valid_assignment crossing (map_of [(slot_across, ''CAT''), (slot_down, ''ART'')])
   \<and> ''CAT'' \<in> set (domain_of [(slot_across, [''CAT'']), (slot_down, [''ART''])] slot_across)"
proof -
  from solve_complete [OF wf_unmatched solve_unmatched]
  have no: "\<not> (\<exists>m. valid_assignment unmatched m)" by simp
  have "slot_across \<in> set (variables crossing)" by (simp add: crossing_def)
  moreover have "map_of [(slot_across, ''CAT''), (slot_down, ''ART'')] slot_across = Some ''CAT''"
    by simp
  ultimately have "''CAT'' \<in> set (domain_of [(slot_across, [''CAT'']), (slot_down, [''ART''])] slot_across)"
    using solve_complete [OF wf_crossing solve_crossing] valid_crossing by blast
  with no wf_unmatched solve_unmatched wf_crossing solve_crossing valid_crossing
  show ?thesis by simp
qed

subsection \<open>A slot whose length matches no word\<close>

lemma list_of_variables_eq:
  "list_of_variables cw ds asg vs = Inr l \<Longrightarrow>
     l = map (\<lambda>x. (x, length (domain_of ds x), length (neighbors cw x)))
           (filter (\<lambda>v. map_of asg v = None) vs)"
  by (induction vs arbitrary: l) (auto simp: domain_of_def split: if_splits option.splits sum.splits)

lemma list_of_variables_entries:
  assumes "list_of_variables cw ds asg vs = Inr l"
  shows "\<forall>(x, n, d)\<in>set l. n = length (domain_of ds x)"
  unfolding list_of_variables_eq [OF assms] by auto

lemma list_of_variables_returns:
  "\<forall>x\<in>set vs. map_of ds x \<noteq> None \<Longrightarrow> \<exists>l. list_of_variables cw ds asg vs = Inr l"
  by (induction vs) auto

lemma sorted_hd_least: "sorted xs \<Longrightarrow> x \<in> set xs \<Longrightarrow> hd xs \<le> x"
  by (cases xs) auto

text \<open>
  The slot that \<open>select_unassigned_variable\<close> picks has a domain of the smallest size
  among the unassigned slots; when one of them has an empty domain, so has the pick.
\<close>

lemma select_unassigned_variable_empty:
  assumes sel: "select_unassigned_variable cw ds asg = Inr (Some var)"
    and v: "v \<in> set (variables cw)" "map_of asg v = None" "domain_of ds v = []"
  shows "domain_of ds var = []"
proof -
  let ?key = "\<lambda>(var :: variable, n :: nat, degree :: nat). (n, - int degree)"
  from sel obtain l where l: "list_of_variables cw ds asg (variables cw) = Inr l" "l \<noteq> []"
    and var: "var = fst (hd (sort_key ?key l))"
    by (auto simp: select_unassigned_variable_def split: sum.splits if_splits)
  let ?s = "sort_key ?key l"
  from l(2) have ne: "?s \<noteq> []" by (metis length_sort length_0_conv)
  then have hd_in: "hd ?s \<in> set l" by (metis hd_in_set set_sort)
  obtain n d where hd: "hd ?s = (var, n, d)" using var by (cases "hd ?s") auto
  from list_of_variables_entries [OF l(1)] hd_in hd have n: "n = length (domain_of ds var)" by auto
  from list_of_variables_set [OF l(1)] v(1,2) have "v \<in> fst ` set l" by simp
  then obtain n' d' where e: "(v, n', d') \<in> set l" by force
  with list_of_variables_entries [OF l(1)] v(3) have "n' = 0" by auto
  from e have "?key (v, n', d') \<in> set (map ?key ?s)" by force
  with sorted_hd_least [OF sorted_sort_key [of ?key l]] have "hd (map ?key ?s) \<le> ?key (v, n', d')"
    by blast
  with ne hd \<open>n' = 0\<close> have "(n, - int d) \<le> (0 :: nat, - int d')" by (simp add: hd_map)
  then have "n = 0" by (auto simp: less_eq_prod_def)
  with n show ?thesis by simp
qed

lemma order_domain_values_empty:
  "map_of ds var = Some [] \<Longrightarrow> order_domain_values cw ds var asg = Inr []"
  by (simp add: order_domain_values_def)

text \<open>
  At the root, with a slot whose domain is empty in a store keyed by the slots,
  \<open>backtrack\<close> selects a slot with an empty domain and returns \<open>None\<close> without a
  candidate to try.
\<close>

lemma backtrack_empty_domain:
  assumes st: "store_of cw ds" and v: "v \<in> set (variables cw)" "domain_of ds v = []"
  shows "backtrack cw ds [] = Inr None"
proof -
  from v(1) have nc: "\<not> assignment_complete cw []" by (auto simp: assignment_complete_iff)
  have "\<forall>x\<in>set (variables cw). map_of ds x \<noteq> None"
    using store_of_lookup [OF st] by simp
  from list_of_variables_returns [OF this] obtain l where
    l: "list_of_variables cw ds [] (variables cw) = Inr l" by blast
  from list_of_variables_set [OF l] v(1) have "l \<noteq> []" by auto
  with l obtain var where sel: "select_unassigned_variable cw ds [] = Inr (Some var)"
    by (simp add: select_unassigned_variable_def)
  from select_unassigned_variable_empty [OF sel v(1) _ v(2)] have e: "domain_of ds var = []" by simp
  from select_unassigned_variable_Some [OF sel] have "var \<in> set (variables cw)"
    by (simp add: unassigned_def)
  with store_of_lookup [OF st] e have "map_of ds var = Some []" by simp
  from order_domain_values_empty [OF this] have "order_domain_values cw ds var [] = Inr []" .
  with nc sel show ?thesis by simp
qed

text \<open>
  C4 (amended). On a well-formed grid with a slot whose length matches no word of the
  list, \<open>solve\<close> returns \<open>None\<close>. It does so at the end of its three steps: the slot's
  domain is empty after node consistency and stays empty in the store that the
  propagation leaves, and \<open>backtrack\<close> on that store returns \<open>None\<close> at its root.
\<close>

theorem solve_unmatched_slot:
  assumes wf: "wf_crossword cw" and v: "v \<in> set (variables cw)"
    and none: "\<forall>w\<in>set (words cw). length w \<noteq> var_length v"
  shows "\<exists>ds'. solve cw (CrosswordCreator cw) = Inr (None, ds') \<and> domain_of ds' v = []
           \<and> backtrack cw ds' [] = Inr None"
proof -
  from enforce_node_consistency_store [OF wf] obtain ds1 where
    e: "enforce_node_consistency cw (CrosswordCreator cw) = Inr ds1" and
    st1: "store_of cw ds1" and nc1: "node_consistent ds1" and
    d1: "\<forall>x\<in>set (variables cw). domain_of ds1 x = filter (\<lambda>w. length w = var_length x) (words cw)"
    by blast
  from d1 v none have empty1: "domain_of ds1 v = []" by (simp add: filter_empty_conv)
  from ac3_loop_returns [OF wf st1 nc1 initial_queue_arcs [OF wf]] obtain b ds' where
    a: "ac3_loop cw (initial_queue cw) ds1 = Inr (b, ds')" and st': "store_of cw ds'" and
    sub: "\<forall>x. domain_of ds' x = filter (\<lambda>w. w \<in> set (domain_of ds' x)) (domain_of ds1 x)"
    by blast
  from sub [rule_format, of v] empty1 have empty: "domain_of ds' v = []" by simp
  from backtrack_empty_domain [OF st' v empty] have bt: "backtrack cw ds' [] = Inr None" .
  with e a have "solve cw (CrosswordCreator cw) = Inr (None, ds')"
    by (simp add: solve_def ac3_def del: backtrack.simps)
  with empty bt show ?thesis by blast
qed

lemma wf_stalled: "wf_crossword stalled"
  by (auto simp: wf_crossword_def stalled_def stalled_overlaps_def crossing_neighbors_def
      slot_across_def slot_down_def slot_long_def)

theorem solve_unmatched_slot_witness:
  "wf_crossword stalled \<and> slot_long \<in> set (variables stalled)
   \<and> \<not> (\<exists>w\<in>set (words stalled). length w = var_length slot_long)
   \<and> (\<exists>ds'. solve stalled (CrosswordCreator stalled) = Inr (None, ds') \<and> domain_of ds' slot_long = []
           \<and> backtrack stalled ds' [] = Inr None)"
proof -
  have v: "slot_long \<in> set (variables stalled)" by (simp add: stalled_def)
  have none: "\<forall>w\<in>set (words stalled). length w \<noteq> var_length slot_long"
    by (simp add: stalled_def slot_long_def)
  from solve_unmatched_slot [OF wf_stalled v none] wf_stalled v none show ?thesis by blast
qed

text \<open>
  C4 as stated fails: \<open>solve\<close> has no test between its steps. On this grid the store
  after node consistency already has an empty domain, yet the store that \<open>solve\<close>
  leaves is the one the propagation pruned further, and the failure that \<open>solve\<close>
  returns is the value of \<open>backtrack\<close> on that store.
\<close>

theorem solve_unmatched_slot_counterexample:
  "enforce_node_consistency stalled (CrosswordCreator stalled)
     = Inr [(slot_across, [''CAT'', ''ART'', ''DOG'']), (slot_down, [''CAT'', ''ART'', ''DOG'']),
            (slot_long, [])]
   \<and> solve stalled (CrosswordCreator stalled)
     = Inr (None, [(slot_across, [''CAT'']), (slot_down, [''ART'']), (slot_long, [])])
   \<and> backtrack stalled [(slot_across, [''CAT'']), (slot_down, [''ART'']), (slot_long, [])] []
     = Inr None
   \<and> [(slot_across, [''CAT'']), (slot_down, [''ART'']), (slot_long, [])]
     \<noteq> [(slot_across, [''CAT'', ''ART'', ''DOG'']), (slot_down, [''CAT'', ''ART'', ''DOG'']),
        (slot_long, [])]"
  by (simp add: solve_def stalled_def stalled_overlaps_def crossing_neighbors_def
      CrosswordCreator_def enforce_node_consistency_def slot_across_def slot_down_def slot_long_def
      set_remove_def ac3_def initial_queue_def revise_def assignment_complete_def
      select_unassigned_variable_def order_domain_values_def)

subsection \<open>The search leaves the store and the old assignments alone\<close>

lemma frame_refl: "frame s s"
  by (simp add: frame_def)

lemma frame_trans: "frame s s1 \<Longrightarrow> frame s1 s2 \<Longrightarrow> frame s s2"
  by (auto simp: frame_def)

lemma frame_copy_setitem:
  "dict_copy s r = (new, s1) \<Longrightarrow> frame s (dict_setitem s1 new var val)"
  by (auto simp: dict_copy_def dict_setitem_def frame_def)

lemma backtrack_mem_frame:
  "backtrack_mem depth cw s assignment = (outcome, s') \<Longrightarrow> frame s s'"
  "backtrack_values_mem depth cw s assignment var vals = (outcome, s') \<Longrightarrow> frame s s'"
proof (induction depth cw s assignment and depth cw s assignment var vals
    arbitrary: outcome s' and outcome s' rule: backtrack_mem_backtrack_values_mem.induct)
  case (1 cw s assignment)
  then show ?case by (simp add: frame_refl)
next
  case (2 depth cw s assignment)
  show ?case
  proof (cases "assignment_complete cw (dict_at s assignment)")
    case True
    with "2.prems" show ?thesis by (simp add: frame_refl)
  next
    case False
    show ?thesis
    proof (cases "select_unassigned_variable cw (self_domains s) (dict_at s assignment)")
      case (Inl e)
      with False "2.prems" show ?thesis by (simp add: frame_refl)
    next
      case (Inr chosen)
      show ?thesis
      proof (cases chosen)
        case None
        with False Inr "2.prems" show ?thesis by (simp add: frame_refl)
      next
        case (Some var)
        show ?thesis
        proof (cases "order_domain_values cw (self_domains s) var (dict_at s assignment)")
          case (Inl e)
          with False \<open>select_unassigned_variable cw (self_domains s) (dict_at s assignment) = Inr chosen\<close>
            Some "2.prems" show ?thesis by (simp add: frame_refl)
        next
          case (Inr vals)
          with False \<open>select_unassigned_variable cw (self_domains s) (dict_at s assignment) = Inr chosen\<close>
            Some "2.prems"
          have "backtrack_values_mem depth cw s assignment var vals = (outcome, s')" by simp
          from "2.IH" [OF False \<open>select_unassigned_variable cw (self_domains s) (dict_at s assignment) = Inr chosen\<close>
              Some Inr this] show ?thesis .
        qed
      qed
    qed
  qed
next
  case (3 depth cw s assignment var)
  then show ?case by (simp add: frame_refl)
next
  case (4 depth cw s assignment var val vals)
  obtain new s1 where copy: "dict_copy s assignment = (new, s1)" by (cases "dict_copy s assignment")
  define s2 where "s2 = dict_setitem s1 new var val"
  from frame_copy_setitem [OF copy] have f2: "frame s s2" by (simp add: s2_def)
  show ?case
  proof (cases "consistent cw (dict_at s2 new)")
    case (Inl e)
    with copy "4.prems" f2 show ?thesis by (simp add: s2_def)
  next
    case (Inr ok)
    show ?thesis
    proof (cases ok)
      case False
      with copy Inr "4.prems" have "backtrack_values_mem depth cw s2 assignment var vals = (outcome, s')"
        by (simp add: s2_def)
      from "4.IH"(3) [OF copy [symmetric] s2_def Inr False this] f2 show ?thesis
        by (rule frame_trans [rotated])
    next
      case True
      obtain r3 s3 where run: "backtrack_mem depth cw s2 new = (r3, s3)"
        by (cases "backtrack_mem depth cw s2 new")
      from "4.IH"(1) [OF copy [symmetric] s2_def Inr True run] f2 have f3: "frame s s3"
        by (rule frame_trans [rotated])
      show ?thesis
      proof (cases r3)
        case (Inl e)
        with copy \<open>consistent cw (dict_at s2 new) = Inr ok\<close> True run "4.prems" f3
        show ?thesis by (simp add: s2_def)
      next
        case (Inr result)
        show ?thesis
        proof (cases "truthy_at s3 result")
          case t: True
          with copy \<open>consistent cw (dict_at s2 new) = Inr ok\<close> True run Inr "4.prems" f3
          show ?thesis by (simp add: s2_def)
        next
          case f: False
          with copy \<open>consistent cw (dict_at s2 new) = Inr ok\<close> True run Inr "4.prems"
          have "backtrack_values_mem depth cw s3 assignment var vals = (outcome, s')"
            by (simp add: s2_def)
          from "4.IH"(2) [OF copy [symmetric] s2_def \<open>consistent cw (dict_at s2 new) = Inr ok\<close>
              True run [symmetric] Inr f this] f3
          show ?thesis by (rule frame_trans [rotated])
        qed
      qed
    qed
  qed
qed

text \<open>
  An address that \<open>backtrack\<close> returns is the address it was given or one allocated
  during the call.
\<close>

lemma backtrack_mem_address:
  "backtrack_mem depth cw s assignment = (Inr (Some r), s') \<Longrightarrow>
     r = assignment \<or> next_address s \<le> r \<and> r < next_address s'"
  "backtrack_values_mem depth cw s assignment var vals = (Inr (Some r), s') \<Longrightarrow>
     next_address s \<le> r \<and> r < next_address s'"
proof (induction depth cw s assignment and depth cw s assignment var vals
    arbitrary: r s' and r s' rule: backtrack_mem_backtrack_values_mem.induct)
  case (1 cw s assignment)
  then show ?case by simp
next
  case (2 depth cw s assignment)
  show ?case
  proof (cases "assignment_complete cw (dict_at s assignment)")
    case True
    with "2.prems" show ?thesis by simp
  next
    case False
    with "2.prems" obtain var vals where
      sel: "select_unassigned_variable cw (self_domains s) (dict_at s assignment) = Inr (Some var)" and
      ord: "order_domain_values cw (self_domains s) var (dict_at s assignment) = Inr vals" and
      run: "backtrack_values_mem depth cw s assignment var vals = (Inr (Some r), s')"
      by (auto split: sum.splits option.splits)
    from "2.IH" [OF False sel refl ord run] show ?thesis by simp
  qed
next
  case (3 depth cw s assignment var)
  then show ?case by simp
next
  case (4 depth cw s assignment var val vals)
  obtain new s1 where copy: "dict_copy s assignment = (new, s1)" by (cases "dict_copy s assignment")
  define s2 where "s2 = dict_setitem s1 new var val"
  from copy have new: "new = next_address s" and n2: "next_address s2 = Suc (next_address s)"
    by (auto simp: dict_copy_def dict_setitem_def s2_def)
  from "4.prems" copy obtain ok where ok: "consistent cw (dict_at s2 new) = Inr ok"
    by (cases "consistent cw (dict_at s2 new)") (auto simp: s2_def Let_def)
  show ?case
  proof (cases ok)
    case False
    with copy ok "4.prems" have "backtrack_values_mem depth cw s2 assignment var vals = (Inr (Some r), s')"
      by (simp add: s2_def)
    from "4.IH"(3) [OF copy [symmetric] s2_def ok False this] n2 show ?thesis by simp
  next
    case True
    obtain r3 s3 where run: "backtrack_mem depth cw s2 new = (r3, s3)"
      by (cases "backtrack_mem depth cw s2 new")
    from backtrack_mem_frame(1) [OF run] n2 have n3: "Suc (next_address s) \<le> next_address s3"
      by (simp add: frame_def)
    from copy ok True run "4.prems" obtain result where r3: "r3 = Inr result"
      by (cases r3) (auto simp: s2_def)
    show ?thesis
    proof (cases "truthy_at s3 result")
      case t: True
      with copy ok True run r3 "4.prems" have res: "result = Some r" "s' = s3"
        by (simp_all add: s2_def)
      from "4.IH"(1) [OF copy [symmetric] s2_def ok True run [unfolded r3 res(1)]] new n2 n3 res(2)
      show ?thesis by auto
    next
      case f: False
      with copy ok True run r3 "4.prems"
      have "backtrack_values_mem depth cw s3 assignment var vals = (Inr (Some r), s')"
        by (simp add: s2_def)
      from "4.IH"(2) [OF copy [symmetric] s2_def ok True run [symmetric] r3 f this] n3
      show ?thesis by simp
    qed
  qed
qed

text \<open>
  C8. For every grid, store, memory and assignment address, and whatever the outcome
  of the call (an assignment, \<open>None\<close> or an exception): after \<open>backtrack\<close>,
  \<open>self.domains\<close> is what it was; every dict object that existed before the call, the
  input assignment among them, holds what it held; and an assignment that is returned
  is the input object itself or an object allocated during the call.
\<close>

theorem backtrack_frame:
  assumes "backtrack_mem depth cw s assignment = (outcome, s')"
  shows "self_domains s' = self_domains s
     \<and> (\<forall>r<next_address s. dict_at s' r = dict_at s r)
     \<and> (\<forall>r. outcome = Inr (Some r) \<longrightarrow> r = assignment \<or> next_address s \<le> r \<and> r < next_address s')"
  using backtrack_mem_frame(1) [OF assms] backtrack_mem_address(1) [of depth cw s assignment _ s'] assms
  by (auto simp: frame_def)

lemma backtrack_mem_crossing:
  "fst (backtrack_mem 3 crossing crossing_memory 0) = Inr (Some 2)
   \<and> dict_at (snd (backtrack_mem 3 crossing crossing_memory 0)) 2
       = [(slot_across, ''CAT''), (slot_down, ''ART'')]
   \<and> dict_at (snd (backtrack_mem 3 crossing crossing_memory 0)) 0 = []
   \<and> next_address (snd (backtrack_mem 3 crossing crossing_memory 0)) = 3"
  by (simp add: numeral_3_eq_3 crossing_memory_def crossing_def crossing_overlaps_def
      crossing_neighbors_def slot_across_def slot_down_def assignment_complete_def
      select_unassigned_variable_def order_domain_values_def consistent_def truthy_at_def
      dict_copy_def dict_setitem_def)

theorem backtrack_frame_witness:
  "backtrack_mem 3 crossing crossing_memory 0
     = (Inr (Some 2), snd (backtrack_mem 3 crossing crossing_memory 0))
   \<and> self_domains (snd (backtrack_mem 3 crossing crossing_memory 0)) = self_domains crossing_memory
   \<and> dict_at (snd (backtrack_mem 3 crossing crossing_memory 0)) 0 = dict_at crossing_memory 0
   \<and> next_address crossing_memory \<le> 2
   \<and> 2 < next_address (snd (backtrack_mem 3 crossing crossing_memory 0))"
proof -
  have run: "backtrack_mem 3 crossing crossing_memory 0
     = (Inr (Some 2), snd (backtrack_mem 3 crossing crossing_memory 0))"
    using backtrack_mem_crossing by (simp add: prod_eq_iff)
  have "(0 :: nat) < next_address crossing_memory" by (simp add: crossing_memory_def)
  with backtrack_frame [OF run] run show ?thesis by auto
qed

subsection \<open>The search on the heap and the search on values\<close>

text \<open>
  The search on the heap and the search on values agree. When the interpreter allows
  more nested calls than there are unassigned slots, \<open>backtrack\<close> on the memory raises
  no RecursionError and its outcome is the outcome of \<open>backtrack\<close> on the value of
  the input object, a returned address standing for the object it points to.
\<close>

lemma truthy_outcome: "outcome_value s (Inr result) = Inr v \<Longrightarrow> truthy v = truthy_at s result"
  by (cases result) (auto simp: outcome_value_def truthy_def truthy_at_def)

lemma backtrack_mem_refines:
  "card (unassigned cw (dict_at s a)) < depth \<Longrightarrow> a < next_address s \<Longrightarrow>
   backtrack_mem depth cw s a = (outcome, s') \<Longrightarrow>
     backtrack cw (self_domains s) (dict_at s a) = outcome_value s' outcome"
  "card (unassigned cw (dict_at s a) - {var}) < depth \<Longrightarrow> a < next_address s \<Longrightarrow>
   backtrack_values_mem depth cw s a var vals = (outcome, s') \<Longrightarrow>
     backtrack_values cw (self_domains s) (dict_at s a) var vals = outcome_value s' outcome"
proof (induction depth cw s a and depth cw s a var vals
    arbitrary: outcome s' and outcome s' rule: backtrack_mem_backtrack_values_mem.induct)
  case (1 cw s a)
  then show ?case by simp
next
  case (2 depth cw s a)
  let ?asg = "dict_at s a" and ?ds = "self_domains s"
  show ?case
  proof (cases "assignment_complete cw ?asg")
    case True
    with "2.prems" show ?thesis by (auto simp: outcome_value_def)
  next
    case nc: False
    show ?thesis
    proof (cases "select_unassigned_variable cw ?ds ?asg")
      case (Inl e)
      with nc "2.prems" show ?thesis by (auto simp: outcome_value_def)
    next
      case sel: (Inr chosen)
      show ?thesis
      proof (cases chosen)
        case None
        with nc sel "2.prems" show ?thesis by (auto simp: outcome_value_def)
      next
        case (Some var)
        note sel' = sel [unfolded Some]
        show ?thesis
        proof (cases "order_domain_values cw ?ds var ?asg")
          case (Inl e)
          with nc sel' "2.prems" show ?thesis by (auto simp: outcome_value_def)
        next
          case (Inr vals)
          with nc sel' "2.prems"(3)
          have run: "backtrack_values_mem depth cw s a var vals = (outcome, s')" by simp
          from select_unassigned_variable_Some [OF sel'] have "var \<in> unassigned cw ?asg" .
          then have "card (unassigned cw ?asg - {var}) < card (unassigned cw ?asg)"
            by (intro card_Diff1_less finite_unassigned)
          with "2.prems"(1) have "card (unassigned cw ?asg - {var}) < depth" by simp
          from "2.IH" [OF nc sel Some Inr this "2.prems"(2) run] nc sel' Inr
          show ?thesis by simp
        qed
      qed
    qed
  qed
next
  case (3 depth cw s a var)
  then show ?case by (auto simp: outcome_value_def)
next
  case (4 depth cw s a var val vals)
  let ?asg = "dict_at s a" and ?ds = "self_domains s"
  obtain new s1 where copy: "dict_copy s a = (new, s1)" by (cases "dict_copy s a")
  define s2 where "s2 = dict_setitem s1 new var val"
  from copy have new: "new = next_address s" and n2: "next_address s2 = Suc (next_address s)"
    and ds2: "self_domains s2 = ?ds"
    and at_new: "dict_at s2 new = dict_update ?asg var val"
    by (auto simp: dict_copy_def dict_setitem_def s2_def)
  from frame_copy_setitem [OF copy] have f2: "frame s s2" by (simp add: s2_def)
  with "4.prems"(2) have a2: "dict_at s2 a = ?asg" "a < next_address s2" by (auto simp: frame_def)
  from "4.prems"(1) have small: "card (unassigned cw (dict_at s2 new)) < depth"
    by (simp add: at_new unassigned_dict_update)
  show ?case
  proof (cases "consistent cw (dict_update ?asg var val)")
    case (Inl e)
    with copy "4.prems"(3) at_new show ?thesis
      by (auto simp: s2_def [symmetric] Let_def outcome_value_def)
  next
    case (Inr ok)
    then have ok2: "consistent cw (dict_at s2 new) = Inr ok" by (simp add: at_new)
    show ?thesis
    proof (cases ok)
      case False
      with copy ok2 "4.prems"(3)
      have run: "backtrack_values_mem depth cw s2 a var vals = (outcome, s')"
        by (simp add: s2_def [symmetric] Let_def)
      from "4.prems"(1) a2 have "card (unassigned cw (dict_at s2 a) - {var}) < depth" by simp
      from "4.IH"(3) [OF copy [symmetric] s2_def ok2 False this a2(2) run] a2 ds2 Inr False
      show ?thesis by (simp add: Let_def)
    next
      case True
      obtain r3 s3 where run: "backtrack_mem depth cw s2 new = (r3, s3)"
        by (cases "backtrack_mem depth cw s2 new")
      from new n2 have "new < next_address s2" by simp
      from "4.IH"(1) [OF copy [symmetric] s2_def ok2 True small this run]
      have pure: "backtrack cw ?ds (dict_update ?asg var val) = outcome_value s3 r3"
        by (simp add: ds2 at_new)
      from backtrack_mem_frame(1) [OF run] f2 have f3: "frame s s3" by (rule frame_trans [rotated])
      with "4.prems"(2) have a3: "dict_at s3 a = ?asg" "a < next_address s3" "self_domains s3 = ?ds"
        by (auto simp: frame_def)
      show ?thesis
      proof (cases r3)
        case (Inl e)
        with copy ok2 True run "4.prems"(3) have "outcome = Inl e" "s' = s3"
          by (simp_all add: s2_def [symmetric] Let_def)
        with pure Inl Inr True show ?thesis by (simp add: Let_def outcome_value_def del: backtrack.simps)
      next
        case res: (Inr result)
        obtain v where v: "outcome_value s3 (Inr result) = Inr v"
          by (cases result) (auto simp: outcome_value_def)
        from truthy_outcome [OF v] have tv: "truthy v = truthy_at s3 result" .
        show ?thesis
        proof (cases "truthy_at s3 result")
          case t: True
          with copy ok2 True run res "4.prems"(3) have "outcome = Inr result" "s' = s3"
            by (simp_all add: s2_def [symmetric] Let_def)
          with pure res v tv t Inr True show ?thesis by (simp add: Let_def del: backtrack.simps)
        next
          case f: False
          with copy ok2 True run res "4.prems"(3)
          have rest: "backtrack_values_mem depth cw s3 a var vals = (outcome, s')"
            by (simp add: s2_def [symmetric] Let_def)
          from "4.prems"(1) a3 have "card (unassigned cw (dict_at s3 a) - {var}) < depth" by simp
          from "4.IH"(2) [OF copy [symmetric] s2_def ok2 True run [symmetric] res f this a3(2) rest] a3
          have "backtrack_values cw ?ds ?asg var vals = outcome_value s' outcome" by simp
          with pure res v tv f Inr True show ?thesis by (simp add: Let_def del: backtrack.simps)
        qed
      qed
    qed
  qed
qed

text \<open>
  The root call of \<open>solve\<close>, \<open>self.backtrack(dict())\<close>, with room for one nested call per
  slot: the search on the heap gives what the search on values gives.
\<close>

lemma backtrack_mem_root:
  assumes "backtrack_mem (Suc (length (variables cw))) cw
      \<lparr>self_domains = ds, dict_at = (\<lambda>r. []), next_address = 1\<rparr> 0 = (outcome, s')"
  shows "backtrack cw ds [] = outcome_value s' outcome"
proof -
  have "card (unassigned cw []) \<le> length (variables cw)"
    by (simp add: unassigned_def card_length)
  then have "card (unassigned cw (dict_at \<lparr>self_domains = ds, dict_at = (\<lambda>r. []), next_address = 1\<rparr> 0))
      < Suc (length (variables cw))" by simp
  from backtrack_mem_refines(1) [OF this _ assms] show ?thesis by simp
qed

end
